theory Spec2Isabelle
  imports Main "HOL-Library.Word" "HOL-Library.Multiset" "HOL-Library.Sublist"
begin

unbundle bit_operations_syntax

section \<open>Wide strings\<close>

text \<open>
  The program works on NUL-terminated \<^verbatim>\<open>wchar_t\<close> strings; on its platform a
  \<^verbatim>\<open>wchar_t\<close> is 16 bits wide. A string is modelled by the list of the
  characters before its terminator, so a well-formed string holds no \<open>0\<close>
  (\<open>cstring\<close>), and a pointer into a string is the suffix that starts there.
  Reading \<^verbatim>\<open>*p\<close> at the end of the list gives the terminator (\<open>deref\<close>).
  The callers of this program never pass a NULL string, so string parameters
  are plain lists.
\<close>

type_synonym wchar = "16 word"
type_synonym wstr = "wchar list"

definition cstring :: "wstr \<Rightarrow> bool" where
  "cstring s = (0 \<notin> set s)"

definition wide :: "string \<Rightarrow> wstr" where
  "wide s = map of_char s"

fun deref :: "wstr \<Rightarrow> wchar" where
  "deref [] = 0"
| "deref (c # p) = c"

definition ch_comma :: wchar where "ch_comma = 0x2C"
definition ch_space :: wchar where "ch_space = 0x20"
definition ch_tab :: wchar where "ch_tab = 0x09"
definition ch_dot :: wchar where "ch_dot = 0x2E"
definition ch_bslash :: wchar where "ch_bslash = 0x5C"
definition ch_slash :: wchar where "ch_slash = 0x2F"
definition ch_star :: wchar where "ch_star = 0x2A"

text \<open>
  The C runtime's case folding in the "C" locale, which the program never
  changes: the letters \<open>A\<close> to \<open>Z\<close> go to \<open>a\<close> to \<open>z\<close>, every other
  character is kept.
\<close>

definition towlower :: "wchar \<Rightarrow> wchar" where
  "towlower c = (if 0x41 \<le> c \<and> c \<le> 0x5A then c + 0x20 else c)"

text \<open>
  The C runtime's \<^verbatim>\<open>_wcsnicmp(first, last, count)\<close>: compares at most
  \<open>count\<close> characters, each folded to lower case, and stops at the first
  difference or at a terminator.
\<close>

fun wcsnicmp :: "wstr \<Rightarrow> wstr \<Rightarrow> nat \<Rightarrow> int" where
  "wcsnicmp s1 s2 0 = 0"
| "wcsnicmp s1 s2 (Suc n) =
     (let f = towlower (deref s1); l = towlower (deref s2) in
      if f \<noteq> l then uint f - uint l
      else if f = 0 then 0
      else wcsnicmp (tl s1) (tl s2) n)"

section \<open>The matcher\<close>

text \<open>
  \<^verbatim>\<open>wcontains_i\<close>: the scan \<^verbatim>\<open>for (p = hay; *p; ++p)\<close> tries every
  non-empty suffix of the haystack.
\<close>

fun wcontains_scan :: "wstr \<Rightarrow> wstr \<Rightarrow> nat \<Rightarrow> bool" where
  "wcontains_scan [] needle nlen = False"
| "wcontains_scan (c # p) needle nlen =
     (if wcsnicmp (c # p) needle nlen = 0 then True
      else wcontains_scan p needle nlen)"

definition wcontains_i :: "wstr \<Rightarrow> wstr \<Rightarrow> bool" where
  "wcontains_i hay needle =
     (if needle = [] then True
      else wcontains_scan hay needle (length needle))"

text \<open>
  \<^verbatim>\<open>basename_ptr\<close>: \<open>lastp\<close> (the source's \<^verbatim>\<open>last\<close>) moves behind every separator the scan meets.
\<close>

fun basename_scan :: "wstr \<Rightarrow> wstr \<Rightarrow> wstr" where
  "basename_scan lastp [] = lastp"
| "basename_scan lastp (c # p) =
     (if c = ch_bslash \<or> c = ch_slash then basename_scan p p
      else basename_scan lastp p)"

definition basename_ptr :: "wstr \<Rightarrow> wstr" where
  "basename_ptr path = basename_scan path path"

text \<open>
  \<^verbatim>\<open>wcsrchr(s, c)\<close>: the suffix that starts at the last occurrence of \<open>c\<close>,
  or \<open>None\<close> for the NULL it returns when there is none.
\<close>

fun wcsrchr :: "wstr \<Rightarrow> wchar \<Rightarrow> wstr option" where
  "wcsrchr [] c = None"
| "wcsrchr (x # s) c =
     (case wcsrchr s c of
        Some r \<Rightarrow> Some r
      | None \<Rightarrow> if x = c then Some (x # s) else None)"

text \<open>
  The loop of \<^verbatim>\<open>ext_allowed\<close> over the list of extensions. \<open>p\<close> is the
  rest of the list; its two inner scans are the two \<open>dropWhile\<close>.
\<close>

definition is_skip :: "wchar \<Rightarrow> bool" where
  "is_skip c = (c = ch_comma \<or> c = ch_space \<or> c = ch_tab)"

lemma ext_scan_shorter:
  assumes "p \<noteq> []"
  shows "length (dropWhile (\<lambda>c. c \<noteq> ch_comma) (dropWhile is_skip p)) < length p"
proof (cases p)
  case Nil
  with assms show ?thesis by simp
next
  case (Cons c q)
  show ?thesis
  proof (cases "is_skip c")
    case True
    have "length (dropWhile (\<lambda>c. c \<noteq> ch_comma) (dropWhile is_skip q)) \<le> length q"
      by (meson length_dropWhile_le order_trans)
    with True Cons show ?thesis by simp
  next
    case False
    then have "c \<noteq> ch_comma" by (auto simp: is_skip_def)
    moreover have "length (dropWhile (\<lambda>c. c \<noteq> ch_comma) q) \<le> length q"
      by (rule length_dropWhile_le)
    ultimately show ?thesis using False Cons by simp
  qed
qed

function ext_scan :: "wstr \<Rightarrow> wstr \<Rightarrow> bool" where
  "ext_scan ext p =
     (if p = [] then False
      else
        let start = dropWhile is_skip p;
            p' = dropWhile (\<lambda>c. c \<noteq> ch_comma) start;
            len = length start - length p'
        in if len > 0 \<and> length ext = len \<and> wcsnicmp ext start len = 0 then True
           else ext_scan ext p')"
  by pat_completeness auto
termination
  by (relation "measure (\<lambda>(ext, p). length p)") (auto simp: ext_scan_shorter)

declare ext_scan.simps [simp del]

definition ext_allowed :: "wstr \<Rightarrow> wstr \<Rightarrow> bool" where
  "ext_allowed filename extcsv =
     (if extcsv = [] then True
      else case wcsrchr filename ch_dot of
             None \<Rightarrow> False
           | Some dot \<Rightarrow>
               if deref (tl dot) = 0 then False
               else ext_scan (tl dot) extcsv)"

section \<open>Reference notions for the matcher\<close>

text \<open>
  What the statements below compare the code with: the text after the last
  character that satisfies \<open>P\<close>, the base name of a path, and equality up to
  case.
\<close>

definition is_sep :: "wchar \<Rightarrow> bool" where
  "is_sep c = (c = ch_bslash \<or> c = ch_slash)"

definition after_last :: "('a \<Rightarrow> bool) \<Rightarrow> 'a list \<Rightarrow> 'a list" where
  "after_last P s = rev (takeWhile (\<lambda>c. \<not> P c) (rev s))"

definition base_name :: "wstr \<Rightarrow> wstr" where
  "base_name path = after_last is_sep path"

definition ieq :: "wstr \<Rightarrow> wstr \<Rightarrow> bool" where
  "ieq a b = (map towlower a = map towlower b)"

fun split_on :: "'a \<Rightarrow> 'a list \<Rightarrow> 'a list list" where
  "split_on c [] = [[]]"
| "split_on c (x # xs) =
     (if x = c then [] # split_on c xs
      else (x # hd (split_on c xs)) # tl (split_on c xs))"

definition is_ws :: "wchar \<Rightarrow> bool" where
  "is_ws c = (c = ch_space \<or> c = ch_tab)"

text \<open>
  The entries of a list of extensions as the loop of \<^verbatim>\<open>ext_allowed\<close> takes
  them (\<open>ext_scan_iff\<close> below proves that these are the texts the loop
  compares): the texts between the commas, each without the spaces and tabs it
  starts with and with the spaces and tabs it ends with, the empty ones left
  out. They are not what the specification calls an entry; that notion is
  \<open>trimmed_entries\<close> below.
\<close>

definition ext_entries :: "wstr \<Rightarrow> wstr list" where
  "ext_entries extcsv =
     filter (\<lambda>e. e \<noteq> []) (map (dropWhile is_ws) (split_on ch_comma extcsv))"

text \<open>
  The settings of \<^verbatim>\<open>Ctx\<close> that the workers only read. The counters and
  the queue of \<^verbatim>\<open>Ctx\<close> are part of the shared state below.
\<close>

record ctx =
  ctx_needle :: wstr
  ctx_extcsv :: wstr
  ctx_match_full_path :: bool

text \<open>
  The target of the substring test in \<^verbatim>\<open>worker_thread\<close>:
  \<^verbatim>\<open>ctx->match_full_path ? full : basename_ptr(full)\<close>, and the test itself.
\<close>

definition match_target :: "ctx \<Rightarrow> wstr \<Rightarrow> wstr" where
  "match_target c full = (if ctx_match_full_path c then full else basename_ptr full)"

definition substring_filter :: "ctx \<Rightarrow> wstr \<Rightarrow> bool" where
  "substring_filter c full = wcontains_i (match_target c full) (ctx_needle c)"

text \<open>
  Removing the spaces and tabs at both ends of an entry, and a list of
  extensions written out from its entries: each entry \<open>t\<close> after its leading
  white space \<open>w\<close>, with a comma between neighbours.
\<close>

definition trim_ws :: "wstr \<Rightarrow> wstr" where
  "trim_ws t = rev (dropWhile is_ws (rev (dropWhile is_ws t)))"

fun csv_join :: "(wstr \<times> wstr) list \<Rightarrow> wstr" where
  "csv_join [] = []"
| "csv_join [(w, t)] = w @ t"
| "csv_join ((w, t) # items) = w @ t @ [ch_comma] @ csv_join items"

text \<open>
  A well-formed item of such a list: spaces and tabs, then an entry that holds
  no comma and does not start with a space or a tab.
\<close>

definition entry_ok :: "wstr \<times> wstr \<Rightarrow> bool" where
  "entry_ok wt = (case wt of (w, t) \<Rightarrow>
     list_all is_ws w \<and> ch_comma \<notin> set t \<and> (t = [] \<or> \<not> is_ws (hd t))
     \<and> cstring t)"

text \<open>
  The entries of a list of extensions in the words of the specification: the
  list is separated by commas and its entries are trimmed of surrounding white
  space.
\<close>

definition trimmed_entries :: "wstr \<Rightarrow> wstr list" where
  "trimmed_entries extcsv =
     filter (\<lambda>e. e \<noteq> []) (map trim_ws (split_on ch_comma extcsv))"

section \<open>The driver\<close>

text \<open>
  The C runtime's \<^verbatim>\<open>_wtoi\<close>, from its documentation, on the characters
  of the "C" locale: white space is skipped, a sign may follow, then decimal
  digits are read up to the first other character; the value is 0 when no
  digit is read, and it saturates at the bounds of a 32-bit \<^verbatim>\<open>int\<close>.
\<close>

definition ch_minus :: wchar where "ch_minus = 0x2D"
definition ch_plus :: wchar where "ch_plus = 0x2B"

definition is_space_c :: "wchar \<Rightarrow> bool" where
  "is_space_c c = (c = 0x20 \<or> (0x09 \<le> c \<and> c \<le> 0x0D))"

definition is_digit_c :: "wchar \<Rightarrow> bool" where
  "is_digit_c c = (0x30 \<le> c \<and> c \<le> 0x39)"

fun wtoi_digits :: "int \<Rightarrow> wstr \<Rightarrow> int" where
  "wtoi_digits acc [] = acc"
| "wtoi_digits acc (c # s) =
     (if is_digit_c c then wtoi_digits (10 * acc + (uint c - 0x30)) s else acc)"

definition int_saturate :: "int \<Rightarrow> int" where
  "int_saturate v = (if v > 2147483647 then 2147483647
                     else if v < - 2147483648 then - 2147483648 else v)"

definition wtoi :: "wstr \<Rightarrow> int" where
  "wtoi s =
     (case dropWhile is_space_c s of
        [] \<Rightarrow> 0
      | c # r \<Rightarrow>
          if c = ch_minus then int_saturate (- wtoi_digits 0 r)
          else if c = ch_plus then int_saturate (wtoi_digits 0 r)
          else int_saturate (wtoi_digits 0 (c # r)))"

text \<open>
  The local variables of \<^verbatim>\<open>wmain\<close> that the option loop sets, and the
  loop \<^verbatim>\<open>for (i = 3; i < argc; i++)\<close> over the arguments that are left.
  The test \<^verbatim>\<open>i + 1 < argc\<close> holds when a further argument follows. The
  loop stops at the first argument it does not accept (\<open>Inl\<close>).
\<close>

record opts =
  o_extcsv :: wstr
  o_match_full_path :: bool
  o_threads :: int

definition opts0 :: opts where
  "opts0 = \<lparr>o_extcsv = [], o_match_full_path = False, o_threads = 0\<rparr>"

fun parse_opts :: "wstr list \<Rightarrow> opts \<Rightarrow> wstr + opts" where
  "parse_opts [] ops = Inr ops"
| "parse_opts [a] ops =
     (if a = wide ''-f'' then Inr (ops\<lparr>o_match_full_path := True\<rparr>) else Inl a)"
| "parse_opts (a # v # rest) ops =
     (if a = wide ''-e'' then parse_opts rest (ops\<lparr>o_extcsv := v\<rparr>)
      else if a = wide ''-f'' then parse_opts (v # rest) (ops\<lparr>o_match_full_path := True\<rparr>)
      else if a = wide ''-t'' then parse_opts rest (ops\<lparr>o_threads := wtoi v\<rparr>)
      else Inl a)"

text \<open>
  What \<^verbatim>\<open>wmain\<close> writes to the error stream, and what it does not decide
  itself: the number of processors, which allocations succeed, how many
  \<^verbatim>\<open>CreateThread\<close> calls succeed before the first failure, and the values of
  the counters once the workers are joined.
\<close>

datatype msg = Usage | UnknownOption wstr | OutOfMemory | CreateThreadFailed
  | Summary int int int int

record env =
  env_nprocs :: "32 word"
  env_root_copy_ok :: bool
  env_root_node_ok :: bool
  env_hs_ok :: bool
  env_created :: nat
  env_found :: int
  env_dirs_scanned :: int
  env_files_scanned :: int

text \<open>
  The result of \<^verbatim>\<open>wmain\<close>: the exit code, the messages, and, when the
  workers were started, the value of \<^verbatim>\<open>threads\<close> before the creation loop, the
  number of workers created, their settings and the queue they start from.
\<close>

record launch =
  l_threads :: int
  l_workers :: nat
  l_ctx :: ctx
  l_queue :: "wstr list"

record outcome =
  exit_code :: int
  stderr_out :: "msg list"
  launched :: "launch option"

definition default_threads :: "env \<Rightarrow> int \<Rightarrow> int" where
  "default_threads e threads =
     (if threads \<le> 0 then
        (let n = sint (env_nprocs e) in if n < 1 then 1 else n)
      else threads)"

definition run_workers :: "env \<Rightarrow> wstr \<Rightarrow> wstr \<Rightarrow> opts \<Rightarrow> outcome" where
  "run_workers e root ndl ops =
     (let threads = default_threads e (o_threads ops) in
      if \<not> env_root_copy_ok e then
        \<lparr>exit_code = 1, stderr_out = [OutOfMemory], launched = None\<rparr>
      else if \<not> env_hs_ok e then
        \<lparr>exit_code = 1, stderr_out = [OutOfMemory], launched = None\<rparr>
      else
        let created = (if int (env_created e) < threads then env_created e else nat threads);
            c = \<lparr>ctx_needle = ndl, ctx_extcsv = o_extcsv ops,
                 ctx_match_full_path = o_match_full_path ops\<rparr>
        in \<lparr>exit_code = 0,
            stderr_out = (if int (env_created e) < threads then [CreateThreadFailed] else []) @
               [Summary (env_found e) (env_dirs_scanned e) (env_files_scanned e) (int created)],
            launched = Some \<lparr>l_threads = threads, l_workers = created, l_ctx = c,
               l_queue = (if env_root_node_ok e then [root] else [])\<rparr>\<rparr>)"

definition wmain :: "env \<Rightarrow> wstr list \<Rightarrow> outcome" where
  "wmain e argv =
     (if length argv < 3 then
        \<lparr>exit_code = 2, stderr_out = [Usage], launched = None\<rparr>
      else
        case parse_opts (drop 3 argv) opts0 of
          Inl a \<Rightarrow> \<lparr>exit_code = 2, stderr_out = [UnknownOption a, Usage], launched = None\<rparr>
        | Inr ops \<Rightarrow> run_workers e (argv ! 1) (argv ! 2) ops)"

text \<open>
  The options of the usage text: \<^verbatim>\<open>-e\<close> and \<^verbatim>\<open>-t\<close> with a value,
  \<^verbatim>\<open>-f\<close> alone. A string with no numeric prefix for \<^verbatim>\<open>_wtoi\<close>.
\<close>

fun options_ok :: "wstr list \<Rightarrow> bool" where
  "options_ok [] = True"
| "options_ok [a] = (a = wide ''-f'')"
| "options_ok (a # v # rest) =
     ((a = wide ''-e'' \<and> options_ok rest) \<or> (a = wide ''-t'' \<and> options_ok rest)
      \<or> (a = wide ''-f'' \<and> options_ok (v # rest)))"

definition numeric :: "wstr \<Rightarrow> bool" where
  "numeric v =
     (case dropWhile is_space_c v of
        [] \<Rightarrow> False
      | c # r \<Rightarrow>
          if c = ch_minus \<or> c = ch_plus then r \<noteq> [] \<and> is_digit_c (hd r)
          else is_digit_c c)"

text \<open>An environment in which nothing fails, on eight processors.\<close>

definition env0 :: env where
  "env0 = \<lparr>env_nprocs = 8, env_root_copy_ok = True, env_root_node_ok = True,
            env_hs_ok = True, env_created = 64, env_found = 0, env_dirs_scanned = 1,
            env_files_scanned = 0\<rparr>"

section \<open>Paths and directory entries\<close>

text \<open>
  \<^verbatim>\<open>join_path\<close> and \<open>make_glob\<close> write into a buffer of \<open>cap\<close>
  characters and fail (\<open>None\<close>) when the result with its terminator does not
  fit. The workers call them with buffers of \<^verbatim>\<open>MAX_PATH * 8\<close> characters.
\<close>

definition needs_slash :: "wstr \<Rightarrow> bool" where
  "needs_slash dir = (length dir > 0 \<and> last dir \<noteq> ch_bslash \<and> last dir \<noteq> ch_slash)"

definition join_path :: "nat \<Rightarrow> wstr \<Rightarrow> wstr \<Rightarrow> wstr option" where
  "join_path cap dir name =
     (let total = length dir + (if needs_slash dir then 1 else 0) + length name + 1 in
      if total > cap then None
      else Some (dir @ (if needs_slash dir then [ch_bslash] else []) @ name))"

definition make_glob :: "nat \<Rightarrow> wstr \<Rightarrow> wstr option" where
  "make_glob cap dir =
     (let total = length dir + (if needs_slash dir then 1 else 0) + 1 + 1 in
      if total > cap then None
      else Some (dir @ (if needs_slash dir then [ch_bslash] else []) @ [ch_star]))"

definition MAX_PATH :: nat where "MAX_PATH = 260"

definition buf_cap :: nat where "buf_cap = MAX_PATH * 8"

definition is_dot_or_dotdot :: "wstr \<Rightarrow> bool" where
  "is_dot_or_dotdot s =
     ((deref s = ch_dot \<and> deref (tl s) = 0) \<or>
      (deref s = ch_dot \<and> deref (tl s) = ch_dot \<and> deref (tl (tl s)) = 0))"

text \<open>
  An entry of \<^verbatim>\<open>WIN32_FIND_DATAW\<close>: the name and the attribute bits. The
  directory enumerator (\<^verbatim>\<open>FindFirstFileW\<close>, \<^verbatim>\<open>FindNextFileW\<close>) is a
  function from the search pattern to the entries it yields in order; the empty
  list stands for \<^verbatim>\<open>INVALID_HANDLE_VALUE\<close>. The tree is static: the function
  does not change during a run.
\<close>

record dirent =
  cFileName :: wstr
  dwFileAttributes :: "32 word"

definition FILE_ATTRIBUTE_DIRECTORY :: "32 word" where
  "FILE_ATTRIBUTE_DIRECTORY = 0x10"

definition FILE_ATTRIBUTE_REPARSE_POINT :: "32 word" where
  "FILE_ATTRIBUTE_REPARSE_POINT = 0x400"

type_synonym filesys = "wstr \<Rightarrow> dirent list"

record world =
  w_ctx :: ctx
  w_fs :: filesys

section \<open>The work queue and the workers\<close>

text \<open>
  A worker is inside \<^verbatim>\<open>wq_pop\<close> and about to evaluate its loop body under
  the mutex (\<open>Popping\<close>), asleep in \<^verbatim>\<open>SleepConditionVariableCS\<close>
  (\<open>Sleeping\<close>), between two entries of the directory it popped, with the
  entries still to come (\<open>Scanning\<close>; with none left it is about to call
  \<^verbatim>\<open>wq_done_one\<close>), or has returned (\<open>Exited\<close>).
\<close>

datatype tstate = Popping | Sleeping | Scanning wstr "dirent list" | Exited

text \<open>
  The shared state: the queue (the linked list from \<^verbatim>\<open>head\<close> to
  \<^verbatim>\<open>tail\<close>, as the list of its strings), \<^verbatim>\<open>active_workers\<close> and
  \<^verbatim>\<open>stop\<close> of \<^verbatim>\<open>WorkQ\<close>, the counters of \<^verbatim>\<open>Ctx\<close>, the lines
  written to the standard output, and the workers. The threads asleep on the
  condition variable are the workers in state \<open>Sleeping\<close>. The count of active
  workers is a 32-bit \<^verbatim>\<open>LONG\<close> in the source and an integer here: it is
  always the number of workers that scan (\<open>inv_q\<close> below), so it stays between
  0 and the number of workers and does not wrap.
\<close>

record sys =
  queue :: "wstr list"
  active_workers :: int
  stop :: bool
  found :: int
  dirs_scanned :: int
  files_scanned :: int
  out_lines :: "wstr list"
  threads :: "tstate list"

text \<open>
  What a step does not decide itself: whether the two allocations of a push
  fail, which sleeping thread \<^verbatim>\<open>WakeConditionVariable\<close> wakes, and whether
  a sleeping thread wakes up with no wake-up call (the platform allows such
  spurious wake-ups, and the loop of \<^verbatim>\<open>wq_pop\<close> is there to absorb them).
\<close>

record choice =
  c_copy_fail :: bool
  c_node_fail :: bool
  c_wake :: nat
  c_spurious :: bool

definition wake_all :: "tstate list \<Rightarrow> tstate list" where
  "wake_all ts = map (\<lambda>t. if t = Sleeping then Popping else t) ts"

definition wake_one :: "nat \<Rightarrow> tstate list \<Rightarrow> tstate list option" where
  "wake_one j ts =
     (if Sleeping \<in> set ts then
        (if j < length ts \<and> ts ! j = Sleeping then Some (ts[j := Popping]) else None)
      else Some ts)"

definition wq_init :: "nat \<Rightarrow> sys" where
  "wq_init k = \<lparr>queue = [], active_workers = 0, stop = False, found = 0, dirs_scanned = 0,
     files_scanned = 0, out_lines = [], threads = replicate k Popping\<rparr>"

definition wq_push_owned :: "choice \<Rightarrow> wstr \<Rightarrow> sys \<Rightarrow> sys option" where
  "wq_push_owned c dir_owned s =
     (if c_node_fail c then Some s
      else case wake_one (c_wake c) (threads s) of
             None \<Rightarrow> None
           | Some ts \<Rightarrow> Some (s\<lparr>queue := queue s @ [dir_owned], threads := ts\<rparr>))"

datatype pop_result = PopStop | PopDir wstr | PopWait

definition wq_pop :: "sys \<Rightarrow> pop_result \<times> sys" where
  "wq_pop s =
     (if stop s then (PopStop, s)
      else case queue s of
             d # rest \<Rightarrow>
               (PopDir d, s\<lparr>queue := rest, active_workers := active_workers s + 1\<rparr>)
           | [] \<Rightarrow>
               if active_workers s = 0
               then (PopStop, s\<lparr>stop := True, threads := wake_all (threads s)\<rparr>)
               else (PopWait, s))"

definition wq_done_one :: "sys \<Rightarrow> sys" where
  "wq_done_one s =
     s\<lparr>active_workers := active_workers s - 1, threads := wake_all (threads s)\<rparr>"

text \<open>
  The body of the loop over the entries in \<^verbatim>\<open>worker_thread\<close>, up to the
  point where it touches the shared state: the entry is skipped, its path is to
  be pushed, or it is a file that matches or not.
\<close>

datatype action = Skip | Push wstr | File bool wstr

definition classify :: "ctx \<Rightarrow> wstr \<Rightarrow> dirent \<Rightarrow> action" where
  "classify c dir fd =
     (if is_dot_or_dotdot (cFileName fd) then Skip
      else case join_path buf_cap dir (cFileName fd) of
             None \<Rightarrow> Skip
           | Some full \<Rightarrow>
               if dwFileAttributes fd AND FILE_ATTRIBUTE_DIRECTORY \<noteq> 0 then
                 (if dwFileAttributes fd AND FILE_ATTRIBUTE_REPARSE_POINT \<noteq> 0 then Skip
                  else Push full)
               else if \<not> ext_allowed (cFileName fd) (ctx_extcsv c) then File False full
               else File (wcontains_i (match_target c full) (ctx_needle c)) full)"

definition find_files :: "world \<Rightarrow> wstr \<Rightarrow> dirent list" where
  "find_files w dir =
     (case make_glob buf_cap dir of None \<Rightarrow> [] | Some glob \<Rightarrow> w_fs w glob)"

definition set_thread :: "nat \<Rightarrow> tstate \<Rightarrow> sys \<Rightarrow> sys" where
  "set_thread i t s = s\<lparr>threads := (threads s)[i := t]\<rparr>"

text \<open>
  One step of worker \<open>i\<close>; \<open>None\<close> when the worker cannot move (it sleeps
  and does not wake up, has returned, or does not exist) or the choice names a
  thread that is not asleep while another one is. A step is one critical
  section of the queue together with the thread's own work that follows it:
  popping, counting the directory and opening the enumeration; handling one
  entry; finishing. The work between two critical sections reads the static
  tree and the thread's own buffers, and writes only the counters and the
  output, which no worker reads.
\<close>

definition thread_step :: "world \<Rightarrow> nat \<Rightarrow> choice \<Rightarrow> sys \<Rightarrow> sys option" where
  "thread_step w i c s =
     (if i \<ge> length (threads s) then None
      else case threads s ! i of
        Exited \<Rightarrow> None
      | Sleeping \<Rightarrow> if c_spurious c then Some (set_thread i Popping s) else None
      | Popping \<Rightarrow>
          (case wq_pop s of
             (PopStop, s') \<Rightarrow> Some (set_thread i Exited s')
           | (PopWait, s') \<Rightarrow> Some (set_thread i Sleeping s')
           | (PopDir dir, s') \<Rightarrow>
               Some (set_thread i (Scanning dir (find_files w dir))
                      (s'\<lparr>dirs_scanned := dirs_scanned s' + 1\<rparr>)))
      | Scanning dir [] \<Rightarrow> Some (set_thread i Popping (wq_done_one s))
      | Scanning dir (fd # fds) \<Rightarrow>
          (let s1 = set_thread i (Scanning dir fds) s in
           case classify (w_ctx w) dir fd of
             Skip \<Rightarrow> Some s1
           | Push full \<Rightarrow>
               if c_copy_fail c then Some s1 else wq_push_owned c full s1
           | File m full \<Rightarrow>
               Some (if m then s1\<lparr>files_scanned := files_scanned s1 + 1,
                                   found := found s1 + 1,
                                   out_lines := out_lines s1 @ [full]\<rparr>
                     else s1\<lparr>files_scanned := files_scanned s1 + 1\<rparr>)))"

text \<open>A run under a schedule: who moves, with which choice.\<close>

fun run :: "world \<Rightarrow> (nat \<times> choice) list \<Rightarrow> sys \<Rightarrow> sys option" where
  "run w [] s = Some s"
| "run w ((i, c) # sched) s =
     (case thread_step w i c s of None \<Rightarrow> None | Some s' \<Rightarrow> run w sched s')"

definition init_sys :: "nat \<Rightarrow> wstr list \<Rightarrow> sys" where
  "init_sys k q = (wq_init k)\<lparr>queue := q\<rparr>"

definition all_exited :: "sys \<Rightarrow> bool" where
  "all_exited s = list_all (\<lambda>t. t = Exited) (threads s)"

definition no_alloc_failure :: "(nat \<times> choice) list \<Rightarrow> bool" where
  "no_alloc_failure sched = list_all (\<lambda>(i, c). \<not> c_copy_fail c \<and> \<not> c_node_fail c) sched"

definition spurious_count :: "(nat \<times> choice) list \<Rightarrow> nat" where
  "spurious_count sched = length (filter (\<lambda>(i, c). c_spurious c) sched)"

section \<open>The main thread\<close>

text \<open>
  Once it has created the workers, \<^verbatim>\<open>wmain\<close> joins them with one call
  \<^verbatim>\<open>WaitForMultipleObjects((DWORD)threads, hs, TRUE, INFINITE)\<close>, does not
  test its result, destroys the queue, writes the summary and returns, which
  ends the process with all its threads. The call, from the platform's
  documentation: it waits for at most \<^verbatim>\<open>MAXIMUM_WAIT_OBJECTS\<close> handles;
  given more, or none, it fails at once; otherwise it returns when every
  worker has returned, and blocks until then.
\<close>

definition MAXIMUM_WAIT_OBJECTS :: nat where "MAXIMUM_WAIT_OBJECTS = 64"

datatype wait_result = WaitDone | WaitFailed | WaitBlocked

definition wait_for_workers :: "sys \<Rightarrow> wait_result" where
  "wait_for_workers s =
     (let n = length (threads s) in
      if n = 0 \<or> MAXIMUM_WAIT_OBJECTS < n then WaitFailed
      else if all_exited s then WaitDone
      else WaitBlocked)"

text \<open>
  The process is the workers together with the main thread. An event is a
  step of a worker, or the step of the main thread from its wait to its return
  (\<open>Join\<close>), which it can take when the wait does not block; after that step
  no thread moves, and what the process has printed is what the workers had
  printed by then. When the wait fails, the main thread's way to its return
  runs beside the workers; of those runs the model holds the ones in which no
  worker moves in between, among them the run in which the main thread returns
  before any worker has moved.
\<close>

datatype event = Work nat choice | Join

record proc =
  p_sys :: sys
  p_returned :: bool

definition proc_step :: "world \<Rightarrow> event \<Rightarrow> proc \<Rightarrow> proc option" where
  "proc_step w ev p =
     (if p_returned p then None
      else case ev of
        Work i c \<Rightarrow>
          (case thread_step w i c (p_sys p) of
             None \<Rightarrow> None
           | Some s' \<Rightarrow> Some (p\<lparr>p_sys := s'\<rparr>))
      | Join \<Rightarrow>
          (case wait_for_workers (p_sys p) of
             WaitBlocked \<Rightarrow> None
           | _ \<Rightarrow> Some (p\<lparr>p_returned := True\<rparr>)))"

fun proc_run :: "world \<Rightarrow> event list \<Rightarrow> proc \<Rightarrow> proc option" where
  "proc_run w [] p = Some p"
| "proc_run w (ev # evs) p =
     (case proc_step w ev p of None \<Rightarrow> None | Some p' \<Rightarrow> proc_run w evs p')"

definition init_proc :: "nat \<Rightarrow> wstr list \<Rightarrow> proc" where
  "init_proc k q = \<lparr>p_sys = init_sys k q, p_returned = False\<rparr>"

text \<open>
  The process that \<^verbatim>\<open>wmain\<close> starts: the workers it has created, on the
  queue as it has seeded it.
\<close>

definition launch_proc :: "launch \<Rightarrow> proc" where
  "launch_proc l = init_proc (l_workers l) (l_queue l)"

text \<open>
  The steps of the workers among the events of a run, a schedule of the workers
  as events, and the events in which nothing goes wrong: no allocation fails
  and no thread wakes up by itself.
\<close>

fun worker_events :: "event list \<Rightarrow> (nat \<times> choice) list" where
  "worker_events [] = []"
| "worker_events (Work i c # evs) = (i, c) # worker_events evs"
| "worker_events (Join # evs) = worker_events evs"

definition work_events :: "(nat \<times> choice) list \<Rightarrow> event list" where
  "work_events sched = map (\<lambda>(i, c). Work i c) sched"

definition quiet :: "choice \<Rightarrow> bool" where
  "quiet c = (\<not> c_copy_fail c \<and> \<not> c_node_fail c \<and> \<not> c_spurious c)"

fun quiet_event :: "event \<Rightarrow> bool" where
  "quiet_event (Work i c) = quiet c"
| "quiet_event Join = True"

section \<open>The directory tree\<close>

text \<open>
  The reference notions for the traversal. \<open>lim\<close> is the capacity that paths
  must fit in with their terminator, \<open>None\<close> for no limit. The children of a
  directory are the entries the enumerator yields for its search pattern, the
  two pseudo-entries left out; its real subdirectories are the children that are
  directories and not reparse points; its matching files are the children that
  are not directories and pass both filters. \<open>finite_below n dir\<close> says that
  no chain of real subdirectories from \<open>dir\<close> has \<open>n\<close> or more members after
  it, and \<open>tree_list\<close> lists the matching files of that finite tree.
\<close>

definition is_dir :: "dirent \<Rightarrow> bool" where
  "is_dir fd = (dwFileAttributes fd AND FILE_ATTRIBUTE_DIRECTORY \<noteq> 0)"

definition is_reparse :: "dirent \<Rightarrow> bool" where
  "is_reparse fd = (dwFileAttributes fd AND FILE_ATTRIBUTE_REPARSE_POINT \<noteq> 0)"

definition child_path :: "wstr \<Rightarrow> wstr \<Rightarrow> wstr" where
  "child_path dir name = dir @ (if needs_slash dir then [ch_bslash] else []) @ name"

definition pattern_of :: "wstr \<Rightarrow> wstr" where
  "pattern_of dir = dir @ (if needs_slash dir then [ch_bslash] else []) @ [ch_star]"

definition fits :: "nat option \<Rightarrow> wstr \<Rightarrow> bool" where
  "fits lim p = (case lim of None \<Rightarrow> True | Some cap \<Rightarrow> length p + 1 \<le> cap)"

definition children :: "nat option \<Rightarrow> filesys \<Rightarrow> wstr \<Rightarrow> dirent list" where
  "children lim fs dir =
     (if fits lim (pattern_of dir) then
        filter (\<lambda>fd. \<not> is_dot_or_dotdot (cFileName fd) \<and>
                     fits lim (child_path dir (cFileName fd)))
          (fs (pattern_of dir))
      else [])"

definition real_subdirs :: "nat option \<Rightarrow> filesys \<Rightarrow> wstr \<Rightarrow> wstr list" where
  "real_subdirs lim fs dir =
     map (\<lambda>fd. child_path dir (cFileName fd))
       (filter (\<lambda>fd. is_dir fd \<and> \<not> is_reparse fd) (children lim fs dir))"

definition passes :: "ctx \<Rightarrow> wstr \<Rightarrow> dirent \<Rightarrow> bool" where
  "passes c dir fd =
     (ext_allowed (cFileName fd) (ctx_extcsv c) \<and>
      substring_filter c (child_path dir (cFileName fd)))"

definition matching_files :: "nat option \<Rightarrow> world \<Rightarrow> wstr \<Rightarrow> wstr list" where
  "matching_files lim w dir =
     map (\<lambda>fd. child_path dir (cFileName fd))
       (filter (\<lambda>fd. \<not> is_dir fd \<and> passes (w_ctx w) dir fd) (children lim (w_fs w) dir))"

fun finite_below :: "nat option \<Rightarrow> filesys \<Rightarrow> nat \<Rightarrow> wstr \<Rightarrow> bool" where
  "finite_below lim fs 0 dir = False"
| "finite_below lim fs (Suc n) dir = list_all (finite_below lim fs n) (real_subdirs lim fs dir)"

fun tree_list :: "nat option \<Rightarrow> world \<Rightarrow> nat \<Rightarrow> wstr \<Rightarrow> wstr list" where
  "tree_list lim w 0 dir = []"
| "tree_list lim w (Suc n) dir =
     matching_files lim w dir @
     concat (map (tree_list lim w n) (real_subdirs lim (w_fs w) dir))"

text \<open>The directories reached from the root through real subdirectories only.\<close>

inductive real_dir :: "nat option \<Rightarrow> filesys \<Rightarrow> wstr \<Rightarrow> wstr \<Rightarrow> bool"
  for lim :: "nat option" and fs :: filesys and root :: wstr where
  real_root: "real_dir lim fs root root"
| real_sub: "real_dir lim fs root dir \<Longrightarrow> sub \<in> set (real_subdirs lim fs dir) \<Longrightarrow>
     real_dir lim fs root sub"

text \<open>
  What the entries still to come of a directory being scanned will push and
  print, and the number of steps a finite tree takes at most.
\<close>

fun pushes :: "ctx \<Rightarrow> wstr \<Rightarrow> dirent list \<Rightarrow> wstr list" where
  "pushes c dir [] = []"
| "pushes c dir (fd # fds) =
     (case classify c dir fd of Push full \<Rightarrow> full # pushes c dir fds | _ \<Rightarrow> pushes c dir fds)"

fun prints :: "ctx \<Rightarrow> wstr \<Rightarrow> dirent list \<Rightarrow> wstr list" where
  "prints c dir [] = []"
| "prints c dir (fd # fds) =
     (case classify c dir fd of
        File m full \<Rightarrow> if m then full # prints c dir fds else prints c dir fds
      | _ \<Rightarrow> prints c dir fds)"

fun tree_steps :: "world \<Rightarrow> nat \<Rightarrow> wstr \<Rightarrow> nat" where
  "tree_steps w 0 dir = 0"
| "tree_steps w (Suc n) dir =
     2 + length (find_files w dir) +
     sum_list (map (tree_steps w n) (real_subdirs (Some buf_cap) (w_fs w) dir))"

section \<open>Invariants and measures\<close>

text \<open>
  Counting the workers that scan and the workers that are about to pop;
  \<open>woken ts ts'\<close> says that \<open>ts'\<close> is \<open>ts\<close> with some sleeping workers
  woken up. \<open>inv_q\<close> is the invariant of the termination protocol: the count
  of active workers is the number of workers that scan; once the stop flag is
  set the queue is empty and every worker is about to pop or has returned; a
  worker has returned only if the flag is set; and a worker sleeps only while
  another one scans.
\<close>

fun nscan :: "tstate \<Rightarrow> nat" where
  "nscan (Scanning dir fds) = 1"
| "nscan t = 0"

fun npop :: "tstate \<Rightarrow> nat" where
  "npop Popping = 1"
| "npop t = 0"

definition woken :: "tstate list \<Rightarrow> tstate list \<Rightarrow> bool" where
  "woken ts ts' =
     (length ts' = length ts \<and>
      (\<forall>k<length ts. ts' ! k = ts ! k \<or> (ts ! k = Sleeping \<and> ts' ! k = Popping)))"

definition inv_q :: "sys \<Rightarrow> bool" where
  "inv_q s =
     (active_workers s = int (sum_list (map nscan (threads s))) \<and>
      (stop s \<longrightarrow> queue s = [] \<and> (\<forall>t\<in>set (threads s). t = Popping \<or> t = Exited)) \<and>
      (Exited \<in> set (threads s) \<longrightarrow> stop s) \<and>
      (Sleeping \<in> set (threads s) \<longrightarrow> 0 < sum_list (map nscan (threads s))))"

text \<open>
  The choice in which no allocation fails, thread \<open>j\<close> is the one to wake and
  no thread wakes up by itself.
\<close>

definition choice0 :: "nat \<Rightarrow> choice" where
  "choice0 j = \<lparr>c_copy_fail = False, c_node_fail = False, c_wake = j, c_spurious = False\<rparr>"

text \<open>
  \<open>inv_dirs\<close>: every directory in the queue or being scanned is a real
  directory below the root, and what a scanning worker will still push are real
  subdirectories of its directory. \<open>pending\<close>: the matching files that are
  still to be printed, those of the queued directories and those the scanning
  workers have before them.
\<close>

fun dirs_ok :: "world \<Rightarrow> wstr \<Rightarrow> tstate \<Rightarrow> bool" where
  "dirs_ok w root (Scanning dir fds) =
     (real_dir (Some buf_cap) (w_fs w) root dir \<and>
      set (pushes (w_ctx w) dir fds) \<subseteq> set (real_subdirs (Some buf_cap) (w_fs w) dir))"
| "dirs_ok w root t = True"

definition inv_dirs :: "world \<Rightarrow> wstr \<Rightarrow> sys \<Rightarrow> bool" where
  "inv_dirs w root s =
     ((\<forall>dir\<in>set (queue s). real_dir (Some buf_cap) (w_fs w) root dir) \<and>
      (\<forall>t\<in>set (threads s). dirs_ok w root t))"

fun pend_thread :: "world \<Rightarrow> nat \<Rightarrow> tstate \<Rightarrow> wstr multiset" where
  "pend_thread w n (Scanning dir fds) =
     mset (prints (w_ctx w) dir fds) +
     mset (concat (map (tree_list (Some buf_cap) w n) (pushes (w_ctx w) dir fds)))"
| "pend_thread w n t = {#}"

definition pending :: "world \<Rightarrow> nat \<Rightarrow> sys \<Rightarrow> wstr multiset" where
  "pending w n s =
     mset (concat (map (tree_list (Some buf_cap) w n) (queue s))) +
     sum_list (map (pend_thread w n) (threads s))"

text \<open>
  The steps that are left at most: the work in the queue and before the
  scanning workers, weighted so that waking workers up never makes up for a
  step of work, plus the number of workers about to pop.
\<close>

fun work_thread :: "world \<Rightarrow> nat \<Rightarrow> tstate \<Rightarrow> nat" where
  "work_thread w n (Scanning dir fds) =
     1 + length fds + sum_list (map (tree_steps w n) (pushes (w_ctx w) dir fds))"
| "work_thread w n t = 0"

definition work :: "world \<Rightarrow> nat \<Rightarrow> sys \<Rightarrow> nat" where
  "work w n s =
     sum_list (map (tree_steps w n) (queue s)) + sum_list (map (work_thread w n) (threads s))"

definition steps_left :: "world \<Rightarrow> nat \<Rightarrow> sys \<Rightarrow> nat" where
  "steps_left w n s =
     work w n s * (length (threads s) + 1) + sum_list (map npop (threads s))"

section \<open>An example\<close>

text \<open>
  Every directory of this file system holds the file a.txt and a reparse point
  named loop, a link to the directory itself. Two workers scan the root r: the
  first pops it, the second finds the queue empty and sleeps, the first prints
  the file, skips the link, finishes and wakes the second, pops again and ends
  the run, and the second one returns. \<open>long_root\<close> is a root of 2079
  characters, eight directory names of 255 characters and one of 31 with a
  separator after each but the last, whose search pattern does not fit the
  buffer.
\<close>

definition ctx0 :: ctx where
  "ctx0 = \<lparr>ctx_needle = [], ctx_extcsv = [], ctx_match_full_path = False\<rparr>"

definition fd_file :: dirent where
  "fd_file = \<lparr>cFileName = wide ''a.txt'', dwFileAttributes = 0x20\<rparr>"

definition fd_link :: dirent where
  "fd_link = \<lparr>cFileName = wide ''loop'', dwFileAttributes = 0x410\<rparr>"

definition world_loop :: world where
  "world_loop = \<lparr>w_ctx = ctx0, w_fs = (\<lambda>pattern. [fd_file, fd_link])\<rparr>"

definition long_root :: wstr where
  "long_root = concat (replicate 8 (replicate 255 0x61 @ [ch_bslash])) @ replicate 31 0x61"

definition sched0 :: "(nat \<times> choice) list" where
  "sched0 = map (\<lambda>i. (i, choice0 0)) [0, 1, 0, 0, 0, 0, 1]"

definition final0 :: sys where
  "final0 = \<lparr>queue = [], active_workers = 0, stop = True, found = 1, dirs_scanned = 1,
     files_scanned = 1, out_lines = [wide ''r'' @ ch_bslash # wide ''a.txt''],
     threads = [Exited, Exited]\<rparr>"

text \<open>
  A second file system: the root r holds the file a.txt, the directory d and
  the link named loop; d holds the file b.txt. Two workers scan it: the first
  pops r, the second finds the queue empty and sleeps; the first prints a.txt
  and pushes the path of d, which wakes the second, who pops it and prints
  b.txt while the first skips the link and finishes; the first then finds the
  queue empty with the second still at work and sleeps, until the second
  finishes and wakes it, finds nothing left, sets the stop flag and returns;
  the first returns, and the main thread's wait ends. \<open>state_tree n\<close> is the
  state after \<open>n\<close> steps of that run (\<open>tree_run\<close> below). In \<open>sched_one\<close> a
  single worker scans the same tree, and in \<open>sched_drop\<close> it does so while the
  allocation of the queue's node for d fails; \<open>final_one\<close> and \<open>final_drop\<close>
  are the states they end in, and \<open>final_long\<close> is the state in which a single
  worker ends on the root \<open>long_root\<close> of the first file system.
\<close>

definition fd_sub :: dirent where
  "fd_sub = \<lparr>cFileName = wide ''d'', dwFileAttributes = 0x10\<rparr>"

definition fd_deep :: dirent where
  "fd_deep = \<lparr>cFileName = wide ''b.txt'', dwFileAttributes = 0x20\<rparr>"

definition dir_r :: wstr where "dir_r = wide ''r''"

definition dir_d :: wstr where "dir_d = wide ''r'' @ ch_bslash # wide ''d''"

definition file_a :: wstr where "file_a = wide ''r'' @ ch_bslash # wide ''a.txt''"

definition file_b :: wstr where
  "file_b = wide ''r'' @ ch_bslash # wide ''d'' @ ch_bslash # wide ''b.txt''"

definition world_tree :: world where
  "world_tree = \<lparr>w_ctx = ctx0, w_fs = (\<lambda>pattern.
     if pattern = dir_r @ [ch_bslash, ch_star] then [fd_file, fd_sub, fd_link]
     else if pattern = dir_d @ [ch_bslash, ch_star] then [fd_deep]
     else [])\<rparr>"

definition sched_tree :: "(nat \<times> choice) list" where
  "sched_tree = map (\<lambda>i. (i, choice0 1)) [0, 1, 0, 0, 1, 0, 1, 0, 0, 1, 1, 0]"

definition trace_tree :: "sys list" where
  "trace_tree =
    [\<lparr>queue = [dir_r], active_workers = 0, stop = False, found = 0, dirs_scanned = 0,
      files_scanned = 0, out_lines = [],
      threads = [Popping, Popping]\<rparr>,
     \<lparr>queue = [], active_workers = 1, stop = False, found = 0, dirs_scanned = 1,
      files_scanned = 0, out_lines = [],
      threads = [Scanning dir_r [fd_file, fd_sub, fd_link], Popping]\<rparr>,
     \<lparr>queue = [], active_workers = 1, stop = False, found = 0, dirs_scanned = 1,
      files_scanned = 0, out_lines = [],
      threads = [Scanning dir_r [fd_file, fd_sub, fd_link], Sleeping]\<rparr>,
     \<lparr>queue = [], active_workers = 1, stop = False, found = 1, dirs_scanned = 1,
      files_scanned = 1, out_lines = [file_a],
      threads = [Scanning dir_r [fd_sub, fd_link], Sleeping]\<rparr>,
     \<lparr>queue = [dir_d], active_workers = 1, stop = False, found = 1, dirs_scanned = 1,
      files_scanned = 1, out_lines = [file_a],
      threads = [Scanning dir_r [fd_link], Popping]\<rparr>,
     \<lparr>queue = [], active_workers = 2, stop = False, found = 1, dirs_scanned = 2,
      files_scanned = 1, out_lines = [file_a],
      threads = [Scanning dir_r [fd_link], Scanning dir_d [fd_deep]]\<rparr>,
     \<lparr>queue = [], active_workers = 2, stop = False, found = 1, dirs_scanned = 2,
      files_scanned = 1, out_lines = [file_a],
      threads = [Scanning dir_r [], Scanning dir_d [fd_deep]]\<rparr>,
     \<lparr>queue = [], active_workers = 2, stop = False, found = 2, dirs_scanned = 2,
      files_scanned = 2, out_lines = [file_a, file_b],
      threads = [Scanning dir_r [], Scanning dir_d []]\<rparr>,
     \<lparr>queue = [], active_workers = 1, stop = False, found = 2, dirs_scanned = 2,
      files_scanned = 2, out_lines = [file_a, file_b],
      threads = [Popping, Scanning dir_d []]\<rparr>,
     \<lparr>queue = [], active_workers = 1, stop = False, found = 2, dirs_scanned = 2,
      files_scanned = 2, out_lines = [file_a, file_b],
      threads = [Sleeping, Scanning dir_d []]\<rparr>,
     \<lparr>queue = [], active_workers = 0, stop = False, found = 2, dirs_scanned = 2,
      files_scanned = 2, out_lines = [file_a, file_b],
      threads = [Popping, Popping]\<rparr>,
     \<lparr>queue = [], active_workers = 0, stop = True, found = 2, dirs_scanned = 2,
      files_scanned = 2, out_lines = [file_a, file_b],
      threads = [Popping, Exited]\<rparr>,
     \<lparr>queue = [], active_workers = 0, stop = True, found = 2, dirs_scanned = 2,
      files_scanned = 2, out_lines = [file_a, file_b],
      threads = [Exited, Exited]\<rparr>]"

definition state_tree :: "nat \<Rightarrow> sys" where
  "state_tree n = trace_tree ! n"

definition sched_drop :: "(nat \<times> choice) list" where
  "sched_drop = map (\<lambda>c. (0, c))
     [choice0 0, choice0 0, (choice0 0)\<lparr>c_node_fail := True\<rparr>, choice0 0, choice0 0, choice0 0]"

definition final_drop :: sys where
  "final_drop = \<lparr>queue = [], active_workers = 0, stop = True, found = 1, dirs_scanned = 1,
     files_scanned = 1, out_lines = [file_a], threads = [Exited]\<rparr>"

definition sched_one :: "(nat \<times> choice) list" where
  "sched_one = replicate 9 (0, choice0 0)"

definition final_one :: sys where
  "final_one = \<lparr>queue = [], active_workers = 0, stop = True, found = 2, dirs_scanned = 2,
     files_scanned = 2, out_lines = [file_a, file_b], threads = [Exited]\<rparr>"

definition final_long :: sys where
  "final_long = \<lparr>queue = [], active_workers = 0, stop = True, found = 0, dirs_scanned = 1,
     files_scanned = 0, out_lines = [], threads = [Exited]\<rparr>"

section \<open>Properties of the matcher\<close>

lemma towlower_0: "towlower 0 = 0"
  by (simp add: towlower_def)

lemma towlower_zero: "(towlower c = 0) = (c = 0)"
proof (cases "0x41 \<le> c \<and> c \<le> 0x5A")
  case True
  then have "unat c \<le> 90" by (simp add: word_le_nat_alt)
  then have "unat (c + 0x20) = unat c + 32"
    by (simp add: unat_word_ariths)
  then have "c + 0x20 \<noteq> 0" by (metis add_is_0 unat_0 zero_neq_numeral)
  moreover from True have "c \<noteq> 0" by auto
  ultimately show ?thesis using True by (simp add: towlower_def)
next
  case False
  then show ?thesis by (auto simp add: towlower_def)
qed

lemma uint_diff_nonzero: "(f::wchar) \<noteq> l \<Longrightarrow> uint f - uint l \<noteq> 0"
  by (simp add: word_uint_eq_iff)

lemma wcsnicmp_Cons_Cons:
  "x \<noteq> 0 \<Longrightarrow>
   (wcsnicmp (x # a) (y # b) (Suc n) = 0) = (towlower x = towlower y \<and> wcsnicmp a b n = 0)"
  using uint_diff_nonzero [of "towlower x" "towlower y"]
  by (auto simp add: Let_def towlower_zero towlower_0)

lemma wcsnicmp_Nil_Cons: "y \<noteq> 0 \<Longrightarrow> wcsnicmp [] (y # b) (Suc n) \<noteq> 0"
  using uint_diff_nonzero [of "towlower 0" "towlower y"] towlower_zero [of y]
  by (simp add: Let_def towlower_0)

lemma wcsnicmp_Cons_Nil: "x \<noteq> 0 \<Longrightarrow> wcsnicmp (x # a) [] (Suc n) \<noteq> 0"
  using uint_diff_nonzero [of "towlower x" "towlower 0"] towlower_zero [of x]
  by (simp add: Let_def towlower_0)

lemma wcsnicmp_Nil_Nil: "wcsnicmp [] [] n = 0"
  by (cases n) (simp_all add: towlower_0)

lemma wcsnicmp_zero_iff:
  "cstring a \<Longrightarrow> cstring b \<Longrightarrow>
   (wcsnicmp a b n = 0) = (map towlower (take n a) = map towlower (take n b))"
proof (induction n arbitrary: a b)
  case 0
  show ?case by simp
next
  case (Suc n)
  show ?case
  proof (cases a)
    case Nil
    note a = this
    show ?thesis
    proof (cases b)
      case Nil
      with a show ?thesis by (simp only: wcsnicmp_Nil_Nil) simp
    next
      case (Cons y b')
      with Suc.prems have "y \<noteq> 0" by (auto simp: cstring_def)
      with a Cons show ?thesis by (simp add: wcsnicmp_Nil_Cons del: wcsnicmp.simps)
    qed
  next
    case (Cons x a')
    note a = this
    with Suc.prems have x: "x \<noteq> 0" by (auto simp: cstring_def)
    show ?thesis
    proof (cases b)
      case Nil
      with a x show ?thesis by (simp add: wcsnicmp_Cons_Nil del: wcsnicmp.simps)
    next
      case (Cons y b')
      with a Suc.prems have "cstring a'" "cstring b'"
        by (auto simp: cstring_def)
      with Suc.IH [of a' b'] a Cons x show ?thesis
        by (simp add: wcsnicmp_Cons_Cons del: wcsnicmp.simps)
    qed
  qed
qed

lemma prefix_take_iff: "prefix xs ys = (take (length xs) ys = xs)"
  by (metis append_eq_conv_conj prefix_def)

lemma wcontains_scan_iff:
  assumes "cstring needle" "needle \<noteq> []"
  shows "cstring hay \<Longrightarrow>
    wcontains_scan hay needle (length needle) = sublist (map towlower needle) (map towlower hay)"
proof (induction hay)
  case Nil
  with assms show ?case by simp
next
  case (Cons c p)
  then have p: "cstring p" by (simp add: cstring_def)
  have "(wcsnicmp (c # p) needle (length needle) = 0) =
        (map towlower (take (length needle) (c # p)) = map towlower needle)"
    using wcsnicmp_zero_iff [OF Cons.prems assms(1), of "length needle"] by simp
  also have "\<dots> = prefix (map towlower needle) (map towlower (c # p))"
    using prefix_take_iff [of "map towlower needle" "map towlower (c # p)"]
    by (simp only: take_map length_map)
  finally show ?case using Cons.IH [OF p]
    by (simp add: sublist_Cons_right del: wcsnicmp.simps)
qed

lemma after_last_Cons:
  "after_last P (c # p) =
     (if \<exists>x\<in>set p. P x then after_last P p else if P c then p else c # p)"
  by (auto simp: after_last_def takeWhile_append takeWhile_eq_all_conv)

lemma after_last_none: "\<forall>x\<in>set s. \<not> P x \<Longrightarrow> after_last P s = s"
proof -
  assume "\<forall>x\<in>set s. \<not> P x"
  then have "takeWhile (\<lambda>c. \<not> P c) (rev s) = rev s"
    by (simp add: takeWhile_eq_all_conv)
  then show ?thesis unfolding after_last_def by (simp only: rev_rev_ident)
qed

lemma basename_scan_eq:
  "basename_scan lastp p = (if \<exists>c\<in>set p. is_sep c then base_name p else lastp)"
proof (induction p arbitrary: lastp)
  case Nil
  show ?case by simp
next
  case (Cons c p)
  show ?case
    by (auto simp add: Cons.IH base_name_def after_last_Cons is_sep_def)
qed

lemma basename_ptr_eq: "basename_ptr path = base_name path"
proof (cases "\<exists>c\<in>set path. is_sep c")
  case True
  then show ?thesis by (simp add: basename_ptr_def basename_scan_eq)
next
  case False
  then have "after_last is_sep path = path"
    by (intro after_last_none) simp
  with False show ?thesis
    by (simp add: basename_ptr_def basename_scan_eq base_name_def)
qed

lemma wcsrchr_eq:
  "wcsrchr s c = (if c \<in> set s then Some (c # after_last (\<lambda>x. x = c) s) else None)"
proof (induction s)
  case Nil
  show ?case by simp
next
  case (Cons x s)
  show ?case
    by (auto simp add: Cons.IH after_last_Cons)
qed

lemma split_on_nonempty: "split_on c s \<noteq> []"
  by (induction s) auto

lemma split_on_decomp:
  "split_on c s = takeWhile (\<lambda>x. x \<noteq> c) s #
     (case dropWhile (\<lambda>x. x \<noteq> c) s of [] \<Rightarrow> [] | _ # r \<Rightarrow> split_on c r)"
proof (induction s)
  case Nil
  show ?case by simp
next
  case (Cons x s)
  then show ?case by simp
qed

lemma ext_entries_skip: "is_skip c \<Longrightarrow> ext_entries (c # p) = ext_entries p"
proof -
  assume c: "is_skip c"
  have ne: "split_on ch_comma p \<noteq> []" by (rule split_on_nonempty)
  then obtain y ys where y: "split_on ch_comma p = y # ys" by (cases "split_on ch_comma p") auto
  show ?thesis
  proof (cases "c = ch_comma")
    case True
    then show ?thesis by (simp add: ext_entries_def)
  next
    case False
    with c have "is_ws c" by (auto simp: is_skip_def is_ws_def)
    with False y show ?thesis by (simp add: ext_entries_def)
  qed
qed

lemma ext_entries_dropWhile: "ext_entries (dropWhile is_skip p) = ext_entries p"
  by (induction p) (simp_all add: ext_entries_skip)

lemma ext_entries_Nil: "ext_entries [] = []"
  by (simp add: ext_entries_def)

lemma ext_entries_start:
  assumes "start = [] \<or> \<not> is_skip (hd start)"
  shows "ext_entries start =
     (if takeWhile (\<lambda>c. c \<noteq> ch_comma) start = [] then []
      else [takeWhile (\<lambda>c. c \<noteq> ch_comma) start]) @
     ext_entries (dropWhile (\<lambda>c. c \<noteq> ch_comma) start)"
proof (cases start)
  case Nil
  then show ?thesis by (simp add: ext_entries_Nil)
next
  case (Cons x s)
  with assms have x: "\<not> is_skip x" by simp
  then have xw: "\<not> is_ws x" and xc: "x \<noteq> ch_comma" by (auto simp: is_skip_def is_ws_def)
  let ?t = "takeWhile (\<lambda>c. c \<noteq> ch_comma) start"
  let ?d = "dropWhile (\<lambda>c. c \<noteq> ch_comma) start"
  have t: "?t = x # takeWhile (\<lambda>c. c \<noteq> ch_comma) s" using Cons xc by simp
  then have dt: "dropWhile is_ws ?t = ?t" using xw by simp
  have rest: "ext_entries ?d = filter (\<lambda>e. e \<noteq> [])
      (map (dropWhile is_ws) (case ?d of [] \<Rightarrow> [] | _ # r \<Rightarrow> split_on ch_comma r))"
  proof (cases ?d)
    case Nil
    show ?thesis unfolding Nil by (simp add: ext_entries_Nil)
  next
    case (Cons y r)
    then have "y = ch_comma" by (metis (mono_tags, lifting) hd_dropWhile list.sel(1) list.simps(3))
    with Cons show ?thesis by (simp add: ext_entries_def)
  qed
  have "ext_entries start = filter (\<lambda>e. e \<noteq> []) (map (dropWhile is_ws)
          (?t # (case ?d of [] \<Rightarrow> [] | _ # r \<Rightarrow> split_on ch_comma r)))"
    unfolding ext_entries_def by (subst split_on_decomp) (rule refl)
  also have "\<dots> = [?t] @ ext_entries ?d"
    using dt t rest by simp
  finally show ?thesis using t by simp
qed

lemma ext_scan_iff:
  "cstring ext \<Longrightarrow> cstring p \<Longrightarrow>
   ext_scan ext p = (\<exists>t\<in>set (ext_entries p). ieq ext t)"
proof (induction ext p rule: ext_scan.induct)
  case (1 ext p)
  show ?case
  proof (cases "p = []")
    case True
    then show ?thesis by (subst ext_scan.simps) (simp add: ext_entries_Nil)
  next
    case False
    define start where "start = dropWhile is_skip p"
    define p' where "p' = dropWhile (\<lambda>c. c \<noteq> ch_comma) start"
    define t where "t = takeWhile (\<lambda>c. c \<noteq> ch_comma) start"
    define len where "len = length start - length p'"
    have st: "start = t @ p'" by (simp add: t_def p'_def)
    then have len: "len = length t" by (simp add: len_def)
    have tk: "take len start = t" using st len by simp
    have cs: "cstring start" "cstring p'" "cstring t"
      using "1.prems"(2) set_dropWhileD [of _ is_skip p] set_dropWhileD [of _ "\<lambda>c. c \<noteq> ch_comma" start]
        set_takeWhileD [of _ "\<lambda>c. c \<noteq> ch_comma" start]
      by (auto simp: cstring_def start_def p'_def t_def)
    have hd: "start = [] \<or> \<not> is_skip (hd start)"
      unfolding start_def by (metis hd_dropWhile)
    have "ext_entries p = ext_entries start"
      using ext_entries_dropWhile [of p] by (simp add: start_def)
    also have "\<dots> = (if t = [] then [] else [t]) @ ext_entries p'"
      using ext_entries_start [OF hd] unfolding t_def p'_def .
    finally have ent: "ext_entries p = (if t = [] then [] else [t]) @ ext_entries p'" .
    have cmp: "(length ext = len \<and> wcsnicmp ext start len = 0) = ieq ext t"
    proof -
      have "(wcsnicmp ext start len = 0) = (map towlower (take len ext) = map towlower t)"
        using wcsnicmp_zero_iff [OF "1.prems"(1) cs(1), of len] tk by simp
      moreover have "ieq ext t \<Longrightarrow> length ext = length t"
        unfolding ieq_def by (rule map_eq_imp_length_eq)
      ultimately show ?thesis
        using len by (auto simp: ieq_def)
    qed
    have step: "ext_scan ext p =
        (if len > 0 \<and> length ext = len \<and> wcsnicmp ext start len = 0 then True
         else ext_scan ext p')"
      using False by (subst ext_scan.simps) (simp add: Let_def start_def p'_def len_def)
    show ?thesis
    proof (cases "len > 0 \<and> length ext = len \<and> wcsnicmp ext start len = 0")
      case True
      with cmp len step ent show ?thesis by auto
    next
      case F: False
      have ih: "ext_scan ext p' = (\<exists>t\<in>set (ext_entries p'). ieq ext t)"
        using "1.IH" [OF False start_def p'_def len_def F "1.prems"(1) cs(2)] .
      show ?thesis
      proof (cases "t = []")
        case True
        with step F ih ent show ?thesis by simp
      next
        case False
        with len have "0 < len" by simp
        with F cmp have "\<not> ieq ext t" by blast
        with step F ih ent False show ?thesis by simp
      qed
    qed
  qed
qed

lemma cstring_after_last: "cstring s \<Longrightarrow> cstring (after_last P s)"
  unfolding cstring_def after_last_def using set_takeWhileD by fastforce

lemma cstring_base_name: "cstring s \<Longrightarrow> cstring (base_name s)"
  by (simp add: base_name_def cstring_after_last)

lemma wcontains_i_iff:
  assumes "cstring hay" "cstring ndl"
  shows "wcontains_i hay ndl = sublist (map towlower ndl) (map towlower hay)"
proof (cases "ndl = []")
  case True
  then show ?thesis by (simp add: wcontains_i_def)
next
  case False
  with wcontains_scan_iff [OF assms(2) False assms(1)] show ?thesis
    by (simp add: wcontains_i_def)
qed

text \<open>
  Claim C7. The substring filter of the worker (the test of
  \<^verbatim>\<open>wcontains_i\<close> on the target the worker chooses) holds exactly when the
  needle, folded to lower case, occurs as a contiguous run in the folded base
  name of the path, or in the folded full path in full-path mode; the empty
  needle passes on every path.
\<close>

theorem substring_filter_contains:
  assumes "cstring full" "cstring (ctx_needle c)"
  shows "substring_filter c full =
           sublist (map towlower (ctx_needle c))
             (map towlower (if ctx_match_full_path c then full else base_name full))
         \<and> (ctx_needle c = [] \<longrightarrow> substring_filter c full)"
proof -
  have "cstring (match_target c full)"
    using assms(1) by (simp add: match_target_def basename_ptr_eq cstring_base_name)
  from wcontains_i_iff [OF this assms(2)]
  have "substring_filter c full =
           sublist (map towlower (ctx_needle c))
             (map towlower (if ctx_match_full_path c then full else base_name full))"
    by (simp add: substring_filter_def match_target_def basename_ptr_eq)
  moreover have "ctx_needle c = [] \<longrightarrow> substring_filter c full"
    by (simp add: substring_filter_def wcontains_i_def)
  ultimately show ?thesis by blast
qed

lemma wide_simps:
  "wide [] = []" "wide (x # xs) = of_char x # wide xs"
  by (simp_all add: wide_def)

theorem substring_filter_contains_witness:
  "substring_filter \<lparr>ctx_needle = wide ''PRI'', ctx_extcsv = [], ctx_match_full_path = False\<rparr>
     (wide ''src/Prime.c'')
   \<and> \<not> substring_filter \<lparr>ctx_needle = wide ''src'', ctx_extcsv = [], ctx_match_full_path = False\<rparr>
     (wide ''src/Prime.c'')
   \<and> substring_filter \<lparr>ctx_needle = wide ''src'', ctx_extcsv = [], ctx_match_full_path = True\<rparr>
     (wide ''src/Prime.c'')
   \<and> substring_filter \<lparr>ctx_needle = [], ctx_extcsv = [], ctx_match_full_path = False\<rparr>
     (wide ''src/Prime.c'')"
proof -
  have f: "cstring (wide ''src/Prime.c'')" by (simp add: cstring_def wide_simps)
  have n1: "cstring (wide ''PRI'')" by (simp add: cstring_def wide_simps)
  have n2: "cstring (wide ''src'')" by (simp add: cstring_def wide_simps)
  have n3: "cstring []" by (simp add: cstring_def)
  have bn: "base_name (wide ''src/Prime.c'') = wide ''Prime.c''"
    by (simp add: base_name_def after_last_def is_sep_def ch_bslash_def ch_slash_def wide_simps)
  have l1: "map towlower (wide ''Prime.c'') = wide ''prime.c''"
    "map towlower (wide ''PRI'') = wide ''pri''"
    "map towlower (wide ''src'') = wide ''src''"
    "map towlower (wide ''src/Prime.c'') = wide ''src/prime.c''"
    by (simp_all add: towlower_def wide_simps)
  have s1: "sublist (wide ''pri'') (wide ''prime.c'')"
    by (simp add: wide_simps sublist_Cons_right)
  have s2: "\<not> sublist (wide ''src'') (wide ''prime.c'')"
    by (simp add: wide_simps sublist_Cons_right)
  have s3: "sublist (wide ''src'') (wide ''src/prime.c'')"
    by (simp add: wide_simps sublist_Cons_right)
  show ?thesis
    using substring_filter_contains [of "wide ''src/Prime.c''"
        "\<lparr>ctx_needle = wide ''PRI'', ctx_extcsv = [], ctx_match_full_path = False\<rparr>"]
      substring_filter_contains [of "wide ''src/Prime.c''"
        "\<lparr>ctx_needle = wide ''src'', ctx_extcsv = [], ctx_match_full_path = False\<rparr>"]
      substring_filter_contains [of "wide ''src/Prime.c''"
        "\<lparr>ctx_needle = wide ''src'', ctx_extcsv = [], ctx_match_full_path = True\<rparr>"]
      substring_filter_contains [of "wide ''src/Prime.c''"
        "\<lparr>ctx_needle = [], ctx_extcsv = [], ctx_match_full_path = False\<rparr>"]
      f n1 n2 n3 bn l1 s1 s2 s3
    by simp
qed

lemma deref_zero: "cstring e \<Longrightarrow> (deref e = 0) = (e = [])"
  by (cases e) (auto simp: cstring_def)

lemma ext_entries_nonempty: "t \<in> set (ext_entries p) \<Longrightarrow> t \<noteq> []"
  by (simp add: ext_entries_def)

lemma ieq_Nil: "ieq [] t = (t = [])"
  by (auto simp: ieq_def)

lemma ext_allowed_entries:
  assumes "cstring filename" "cstring extcsv"
  shows "ext_allowed filename extcsv =
     (extcsv = [] \<or>
      (ch_dot \<in> set filename \<and>
       (\<exists>t\<in>set (ext_entries extcsv). ieq (after_last (\<lambda>c. c = ch_dot) filename) t)))"
proof (cases "extcsv = []")
  case True
  then show ?thesis by (simp add: ext_allowed_def)
next
  case ne: False
  show ?thesis
  proof (cases "ch_dot \<in> set filename")
    case False
    with ne show ?thesis by (simp add: ext_allowed_def wcsrchr_eq)
  next
    case True
    define e where "e = after_last (\<lambda>c. c = ch_dot) filename"
    have ce: "cstring e" unfolding e_def using assms(1) by (rule cstring_after_last)
    have all: "ext_allowed filename extcsv = (if e = [] then False else ext_scan e extcsv)"
      using ne True deref_zero [OF ce] by (simp add: ext_allowed_def wcsrchr_eq e_def)
    show ?thesis
    proof (cases "e = []")
      case True
      have "\<not> (\<exists>t\<in>set (ext_entries extcsv). ieq e t)"
        using True ext_entries_nonempty by (auto simp: ieq_Nil)
      with all True ne show ?thesis by (simp add: e_def)
    next
      case False
      with all ext_scan_iff [OF ce assms(2)] ne True show ?thesis
        by (simp add: e_def)
    qed
  qed
qed

lemma ext_scan_all_skip:
  assumes "\<forall>c\<in>set p. is_skip c"
  shows "\<not> ext_scan ext p"
proof -
  from assms have d: "dropWhile is_skip p = []" by simp
  have "ext_scan ext p = (if p = [] then False else ext_scan ext [])"
    by (subst ext_scan.simps) (simp only: d Let_def, simp)
  moreover have "\<not> ext_scan ext []" by (subst ext_scan.simps) simp
  ultimately show ?thesis by simp
qed

text \<open>
  Claim C5, as amended. With a non-empty list of extensions, a file name passes
  the extension filter exactly when it holds a dot and the text after its last
  dot equals, up to case, an entry of the list; a name with no dot fails, and
  the empty list lets every name pass. The name a.TXT passes under the list
  txt, the name a.text does not. The entries are the texts between the commas
  without the spaces and tabs they start with; the spaces and tabs an entry
  ends with are part of it (\<open>ext_entries\<close>), so the entries are not trimmed
  of surrounding white space.
\<close>

theorem ext_allowed_iff:
  assumes "cstring filename" "cstring extcsv"
  shows "ext_allowed filename extcsv =
     (extcsv = [] \<or>
      (ch_dot \<in> set filename \<and>
       (\<exists>t\<in>set (ext_entries extcsv). ieq (after_last (\<lambda>c. c = ch_dot) filename) t)))
     \<and> ext_allowed (wide ''a.TXT'') (wide ''txt'')
     \<and> \<not> ext_allowed (wide ''a.text'') (wide ''txt'')"
proof -
  have c: "cstring (wide ''a.TXT'')" "cstring (wide ''a.text'')" "cstring (wide ''txt'')"
    by (simp_all add: cstring_def wide_simps)
  have e: "ext_entries (wide ''txt'') = [wide ''txt'']"
    by (simp add: ext_entries_def wide_simps ch_comma_def is_ws_def ch_space_def ch_tab_def)
  have a1: "after_last (\<lambda>c. c = ch_dot) (wide ''a.TXT'') = wide ''TXT''"
    and a2: "after_last (\<lambda>c. c = ch_dot) (wide ''a.text'') = wide ''text''"
    by (simp_all add: after_last_def wide_simps ch_dot_def)
  have d: "ch_dot \<in> set (wide ''a.TXT'')" "ch_dot \<in> set (wide ''a.text'')" "wide ''txt'' \<noteq> []"
    by (simp_all add: wide_simps ch_dot_def)
  have i: "ieq (wide ''TXT'') (wide ''txt'')" "\<not> ieq (wide ''text'') (wide ''txt'')"
    by (simp_all add: ieq_def wide_simps towlower_def)
  have "ext_allowed (wide ''a.TXT'') (wide ''txt'')"
    using ext_allowed_entries [OF c(1) c(3)] e a1 d i by simp
  moreover have "\<not> ext_allowed (wide ''a.text'') (wide ''txt'')"
    using ext_allowed_entries [OF c(2) c(3)] e a2 d i by simp
  ultimately show ?thesis using ext_allowed_entries [OF assms] by blast
qed

theorem ext_allowed_iff_witness:
  "ext_allowed (wide ''main.C'') (wide ''h, c,cpp'')
   \<and> \<not> ext_allowed (wide ''main.cc'') (wide ''h, c,cpp'')
   \<and> \<not> ext_allowed (wide ''Makefile'') (wide ''h, c,cpp'')
   \<and> ext_allowed (wide ''Makefile'') []"
proof -
  have c: "cstring (wide ''main.C'')" "cstring (wide ''main.cc'')" "cstring (wide ''Makefile'')"
    "cstring (wide ''h, c,cpp'')" "cstring []"
    by (simp_all add: cstring_def wide_simps)
  have e: "ext_entries (wide ''h, c,cpp'') = [wide ''h'', wide ''c'', wide ''cpp'']"
    by (simp add: ext_entries_def wide_simps ch_comma_def is_ws_def ch_space_def ch_tab_def)
  have a: "after_last (\<lambda>c. c = ch_dot) (wide ''main.C'') = wide ''C''"
    "after_last (\<lambda>c. c = ch_dot) (wide ''main.cc'') = wide ''cc''"
    by (simp_all add: after_last_def wide_simps ch_dot_def)
  have d: "ch_dot \<in> set (wide ''main.C'')" "ch_dot \<in> set (wide ''main.cc'')"
    "ch_dot \<notin> set (wide ''Makefile'')" "wide ''h, c,cpp'' \<noteq> []"
    by (simp_all add: wide_simps ch_dot_def)
  have i: "ieq (wide ''C'') (wide ''c'')" "\<not> ieq (wide ''C'') (wide ''h'')"
    "\<not> ieq (wide ''cc'') (wide ''h'')" "\<not> ieq (wide ''cc'') (wide ''c'')"
    "\<not> ieq (wide ''cc'') (wide ''cpp'')"
    by (simp_all add: ieq_def wide_simps towlower_def)
  show ?thesis
    using ext_allowed_iff [OF c(1) c(4)] ext_allowed_iff [OF c(2) c(4)]
      ext_allowed_iff [OF c(3) c(4)] ext_allowed_iff [OF c(3) c(5)] e a d i
    by simp
qed

text \<open>
  Claim C5 as stated fails, with the entries of the list trimmed of surrounding
  white space as the specification has them: the non-empty list \<^verbatim>\<open>"txt "\<close>
  then has the one entry txt, the text after the last dot of a.txt equals it,
  and yet a.txt does not pass the filter.
\<close>

theorem ext_allowed_trimmed_counterexample:
  "wide ''txt '' \<noteq> []
   \<and> trimmed_entries (wide ''txt '') = [wide ''txt'']
   \<and> ch_dot \<in> set (wide ''a.txt'')
   \<and> after_last (\<lambda>c. c = ch_dot) (wide ''a.txt'') = wide ''txt''
   \<and> ieq (wide ''txt'') (wide ''txt'')
   \<and> \<not> ext_allowed (wide ''a.txt'') (wide ''txt '')"
proof -
  have c: "cstring (wide ''a.txt'')" "cstring (wide ''txt '')"
    by (simp_all add: cstring_def wide_simps)
  have e: "ext_entries (wide ''txt '') = [wide ''txt '']"
    by (simp add: ext_entries_def wide_simps ch_comma_def is_ws_def ch_space_def ch_tab_def)
  have t: "trimmed_entries (wide ''txt '') = [wide ''txt'']"
    by (simp add: trimmed_entries_def trim_ws_def wide_simps ch_comma_def is_ws_def ch_space_def
        ch_tab_def)
  have a: "after_last (\<lambda>c. c = ch_dot) (wide ''a.txt'') = wide ''txt''"
    by (simp add: after_last_def wide_simps ch_dot_def)
  have i: "\<not> ieq (wide ''txt'') (wide ''txt '')" "ieq (wide ''txt'') (wide ''txt'')"
    by (simp_all add: ieq_def wide_simps)
  have d: "ch_dot \<in> set (wide ''a.txt'')" "wide ''txt '' \<noteq> []"
    by (simp_all add: wide_simps ch_dot_def)
  have "\<not> ext_allowed (wide ''a.txt'') (wide ''txt '')"
    using ext_allowed_entries [OF c(1) c(2)] e a i d by simp
  with d t a i(2) show ?thesis by blast
qed

text \<open>
  Claim C10. A non-empty list of extensions that holds only commas, spaces and
  tabs rejects every file name, while the empty list accepts every file name.
\<close>

theorem ext_allowed_separators_only:
  assumes "extcsv \<noteq> []" "\<forall>c\<in>set extcsv. is_skip c"
  shows "\<not> ext_allowed filename extcsv \<and> ext_allowed filename []"
proof -
  have "\<not> ext_scan ext extcsv" for ext
    using assms(2) by (rule ext_scan_all_skip)
  with assms(1) show ?thesis
    by (simp add: ext_allowed_def split: option.splits)
qed

theorem ext_allowed_separators_only_witness:
  "\<not> ext_allowed (wide ''a.txt'') [ch_comma, ch_space, ch_tab, ch_comma]
   \<and> ext_allowed (wide ''a.txt'') []"
  using ext_allowed_separators_only [of "[ch_comma, ch_space, ch_tab, ch_comma]" "wide ''a.txt''"]
  by (simp add: is_skip_def)

lemma split_on_no_sep: "c \<notin> set a \<Longrightarrow> split_on c a = [a]"
  by (induction a) auto

lemma split_on_append_sep: "c \<notin> set a \<Longrightarrow> split_on c (a @ c # r) = a # split_on c r"
  by (induction a) auto

lemma is_ws_not_comma: "is_ws c \<Longrightarrow> c \<noteq> ch_comma"
  by (auto simp: is_ws_def ch_space_def ch_tab_def ch_comma_def)

lemma is_ws_not_zero: "is_ws c \<Longrightarrow> c \<noteq> 0"
  by (auto simp: is_ws_def ch_space_def ch_tab_def)

lemma entry_ok_no_comma: "entry_ok (w, t) \<Longrightarrow> ch_comma \<notin> set (w @ t)"
  by (auto simp: entry_ok_def list_all_iff dest: is_ws_not_comma)

lemma entry_ok_dropWhile: "entry_ok (w, t) \<Longrightarrow> dropWhile is_ws (w @ t) = t"
  by (cases t) (auto simp: entry_ok_def list_all_iff dropWhile_append)

lemma entry_ok_cstring: "entry_ok (w, t) \<Longrightarrow> cstring (w @ t)"
  by (auto simp: entry_ok_def list_all_iff cstring_def dest: is_ws_not_zero)

lemma ext_entries_single:
  "entry_ok (w, t) \<Longrightarrow> ext_entries (w @ t) = (if t = [] then [] else [t])"
  using entry_ok_no_comma [of w t] entry_ok_dropWhile [of w t]
  by (simp add: ext_entries_def split_on_no_sep del: set_append)

lemma ext_entries_cons:
  "entry_ok (w, t) \<Longrightarrow>
   ext_entries (w @ t @ ch_comma # r) = (if t = [] then [] else [t]) @ ext_entries r"
  using entry_ok_no_comma [of w t] entry_ok_dropWhile [of w t]
    split_on_append_sep [of ch_comma "w @ t" r]
  by (simp add: ext_entries_def del: set_append)

lemma ext_entries_csv_join:
  "list_all entry_ok items \<Longrightarrow>
   ext_entries (csv_join items) = filter (\<lambda>t. t \<noteq> []) (map snd items)"
proof (induction items rule: csv_join.induct)
  case 1
  show ?case by (simp add: ext_entries_Nil)
next
  case (2 w t)
  then show ?case by (simp add: ext_entries_single)
next
  case (3 w t v va)
  then show ?case by (simp add: ext_entries_cons)
qed

lemma cstring_csv_join: "list_all entry_ok items \<Longrightarrow> cstring (csv_join items)"
proof (induction items rule: csv_join.induct)
  case 1
  show ?case by (simp add: cstring_def)
next
  case (2 w t)
  then show ?case using entry_ok_cstring [of w t] by simp
next
  case (3 w t v va)
  then have "cstring (w @ t)" "cstring (csv_join (v # va))"
    using entry_ok_cstring [of w t] by simp_all
  then show ?case by (auto simp: cstring_def ch_comma_def)
qed

lemma after_last_append:
  "\<forall>x\<in>set e. \<not> P x \<Longrightarrow> P c \<Longrightarrow> after_last P (stem @ c # e) = e"
  using after_last_none [of e P] by (simp add: after_last_def takeWhile_tail)

text \<open>
  Claim C6, as amended. The list of extensions is separated by commas only.
  For a list written out from items, each item being spaces and tabs followed
  by an entry that holds no comma and does not start with a space or a tab, a
  file name with the non-empty extension \<open>e\<close> passes exactly when \<open>e\<close> equals
  some entry up to case. The entry is compared whole: spaces inside it or at
  its end belong to it.
\<close>

theorem ext_list_comma_separated:
  assumes "list_all entry_ok items" "csv_join items \<noteq> []"
    and "cstring stem" "cstring e" "e \<noteq> []" "ch_dot \<notin> set e"
  shows "ext_allowed (stem @ ch_dot # e) (csv_join items) = (\<exists>wt\<in>set items. ieq e (snd wt))"
proof -
  have cf: "cstring (stem @ ch_dot # e)"
    using assms(3,4) by (auto simp: cstring_def ch_dot_def)
  have al: "after_last (\<lambda>c. c = ch_dot) (stem @ ch_dot # e) = e"
    using assms(6) by (intro after_last_append) auto
  have "ext_allowed (stem @ ch_dot # e) (csv_join items) =
        (\<exists>t\<in>set (ext_entries (csv_join items)). ieq e t)"
    using ext_allowed_entries [OF cf cstring_csv_join [OF assms(1)]] assms(2) al by simp
  also have "\<dots> = (\<exists>t\<in>set (filter (\<lambda>t. t \<noteq> []) (map snd items)). ieq e t)"
    by (simp only: ext_entries_csv_join [OF assms(1)])
  also have "\<dots> = (\<exists>wt\<in>set items. ieq e (snd wt))"
  proof -
    have "t \<noteq> []" if "ieq e t" for t
      using that assms(5) unfolding ieq_def by (metis map_is_Nil_conv)
    then have "(t \<noteq> [] \<and> ieq e t) = ieq e t" for t by blast
    then show ?thesis by (simp add: Bex_def image_iff conj_commute cong: conj_cong) blast
  qed
  finally show ?thesis .
qed

theorem ext_list_comma_separated_witness:
  "csv_join [([], wide ''c''), ([ch_space], wide ''H''), ([ch_tab, ch_space], wide ''c pp '')]
     = wide ''c,'' @ [ch_space] @ wide ''H,'' @ [ch_tab, ch_space] @ wide ''c pp ''
   \<and> ext_allowed (wide ''main.h'')
        (csv_join [([], wide ''c''), ([ch_space], wide ''H''), ([ch_tab, ch_space], wide ''c pp '')])
   \<and> \<not> ext_allowed (wide ''main.pp'')
        (csv_join [([], wide ''c''), ([ch_space], wide ''H''), ([ch_tab, ch_space], wide ''c pp '')])"
proof -
  let ?items = "[([], wide ''c''), ([ch_space], wide ''H''), ([ch_tab, ch_space], wide ''c pp '')]"
  have ok: "list_all entry_ok ?items"
    by (simp add: entry_ok_def is_ws_def cstring_def wide_simps ch_space_def ch_tab_def ch_comma_def)
  have ne: "csv_join ?items \<noteq> []" by (simp add: wide_simps)
  have c: "cstring (wide ''main'')" "cstring (wide ''h'')" "cstring (wide ''pp'')"
    by (simp_all add: cstring_def wide_simps)
  have d: "wide ''h'' \<noteq> []" "ch_dot \<notin> set (wide ''h'')" "wide ''pp'' \<noteq> []" "ch_dot \<notin> set (wide ''pp'')"
    by (simp_all add: wide_simps ch_dot_def)
  have n: "wide ''main.h'' = wide ''main'' @ ch_dot # wide ''h''"
    "wide ''main.pp'' = wide ''main'' @ ch_dot # wide ''pp''"
    by (simp_all add: wide_simps ch_dot_def)
  have i: "ieq (wide ''h'') (wide ''H'')" "\<not> ieq (wide ''pp'') (wide ''c'')"
    "\<not> ieq (wide ''pp'') (wide ''H'')" "\<not> ieq (wide ''pp'') (wide ''c pp '')"
    by (simp_all add: ieq_def wide_simps towlower_def)
  have j: "csv_join ?items = wide ''c,'' @ [ch_space] @ wide ''H,'' @ [ch_tab, ch_space] @ wide ''c pp ''"
    by (simp add: wide_simps ch_comma_def)
  show ?thesis
    using ext_list_comma_separated [OF ok ne c(1) c(2) d(1) d(2)]
      ext_list_comma_separated [OF ok ne c(1) c(3) d(3) d(4)] i j
    by (simp add: n)
qed

text \<open>
  Claim C6 as stated fails: the list \<^verbatim>\<open>"txt "\<close> rejects a.txt although its
  entry, trimmed at both ends, equals the extension; and the list
  \<^verbatim>\<open>"c h"\<close> rejects a.h, so a space does not separate entries.
\<close>

theorem ext_list_trim_counterexample:
  "\<not> (ext_allowed (wide ''a.txt'') (wide ''txt '') =
        ieq (after_last (\<lambda>c. c = ch_dot) (wide ''a.txt'')) (trim_ws (wide ''txt '')))
   \<and> \<not> ext_allowed (wide ''a.h'') (wide ''c h'')"
proof -
  have c: "cstring (wide ''a.txt'')" "cstring (wide ''txt '')" "cstring (wide ''a.h'')" "cstring (wide ''c h'')"
    by (simp_all add: cstring_def wide_simps)
  have e: "ext_entries (wide ''txt '') = [wide ''txt '']" "ext_entries (wide ''c h'') = [wide ''c h'']"
    by (simp_all add: ext_entries_def wide_simps ch_comma_def is_ws_def ch_space_def ch_tab_def)
  have a: "after_last (\<lambda>c. c = ch_dot) (wide ''a.txt'') = wide ''txt''"
    "after_last (\<lambda>c. c = ch_dot) (wide ''a.h'') = wide ''h''"
    by (simp_all add: after_last_def wide_simps ch_dot_def)
  have t: "trim_ws (wide ''txt '') = wide ''txt''"
    by (simp add: trim_ws_def wide_simps is_ws_def ch_space_def ch_tab_def)
  have i: "\<not> ieq (wide ''txt'') (wide ''txt '')" "ieq (wide ''txt'') (wide ''txt'')"
    "\<not> ieq (wide ''h'') (wide ''c h'')"
    by (simp_all add: ieq_def wide_simps)
  have d: "ch_dot \<in> set (wide ''a.txt'')" "ch_dot \<in> set (wide ''a.h'')"
    "wide ''txt '' \<noteq> []" "wide ''c h'' \<noteq> []"
    by (simp_all add: wide_simps ch_dot_def)
  show ?thesis
    using ext_allowed_entries [OF c(1) c(2)] ext_allowed_entries [OF c(3) c(4)] e a t i d
    by simp
qed

section \<open>Properties of the driver\<close>

lemma flag_distinct:
  "wide ''-e'' \<noteq> wide ''-f''" "wide ''-e'' \<noteq> wide ''-t''" "wide ''-f'' \<noteq> wide ''-t''"
  by (simp_all add: wide_simps)

lemma parse_opts_ok: "isl (parse_opts xs ops) = (\<not> options_ok xs)"
  by (induction xs ops rule: parse_opts.induct) (use flag_distinct in auto)

lemma run_workers_exit:
  "exit_code (run_workers e root ndl ops) =
     (if env_root_copy_ok e \<and> env_hs_ok e then 0 else 1)"
  by (simp add: run_workers_def Let_def)

text \<open>
  The exit code of \<^verbatim>\<open>wmain\<close> in general. It is 2 exactly when fewer than
  two positional arguments are given or the remaining arguments are not options
  of the usage text (in particular when an unknown flag follows the positional
  arguments); then the usage text is written and no worker is started. It is 1
  exactly when the arguments are accepted and the copy of the root or the array
  of thread handles cannot be allocated; then no worker is started. In every
  other case the workers are started and the exit code is 0, whatever the
  counters hold, also when no match was found, and also when the node that
  should hold the root in the queue could not be allocated.
\<close>

theorem wmain_exit_code:
  "exit_code (wmain e argv) =
     (if length argv < 3 \<or> \<not> options_ok (drop 3 argv) then 2
      else if \<not> env_root_copy_ok e \<or> \<not> env_hs_ok e then 1 else 0)
   \<and> (exit_code (wmain e argv) = 2 \<longrightarrow>
        Usage \<in> set (stderr_out (wmain e argv)) \<and> launched (wmain e argv) = None)
   \<and> (exit_code (wmain e argv) = 1 \<longrightarrow>
        stderr_out (wmain e argv) = [OutOfMemory] \<and> launched (wmain e argv) = None)
   \<and> (exit_code (wmain e argv) = 0 \<longrightarrow> launched (wmain e argv) \<noteq> None)
   \<and> (a \<noteq> wide ''-e'' \<and> a \<noteq> wide ''-f'' \<and> a \<noteq> wide ''-t'' \<longrightarrow>
        exit_code (wmain e (prog # root # ndl # a # rest)) = 2)"
proof -
  have p: "(\<exists>a. parse_opts (drop 3 argv) opts0 = Inl a) = (\<not> options_ok (drop 3 argv))"
    using parse_opts_ok [of "drop 3 argv" opts0] by (cases "parse_opts (drop 3 argv) opts0") auto
  have 1: "exit_code (wmain e argv) =
     (if length argv < 3 \<or> \<not> options_ok (drop 3 argv) then 2
      else if \<not> env_root_copy_ok e \<or> \<not> env_hs_ok e then 1 else 0)"
    using p by (auto simp: wmain_def run_workers_exit split: sum.splits)
  have 2: "exit_code (wmain e argv) = 2 \<longrightarrow>
        Usage \<in> set (stderr_out (wmain e argv)) \<and> launched (wmain e argv) = None"
    by (auto simp: wmain_def run_workers_exit split: sum.splits if_splits)
  have 3: "exit_code (wmain e argv) = 1 \<longrightarrow>
        stderr_out (wmain e argv) = [OutOfMemory] \<and> launched (wmain e argv) = None"
    by (auto simp: wmain_def run_workers_def Let_def split: sum.splits if_splits)
  have 4: "exit_code (wmain e argv) = 0 \<longrightarrow> launched (wmain e argv) \<noteq> None"
    by (auto simp: wmain_def run_workers_def Let_def split: sum.splits if_splits)
  have 5: "a \<noteq> wide ''-e'' \<and> a \<noteq> wide ''-f'' \<and> a \<noteq> wide ''-t'' \<longrightarrow>
        exit_code (wmain e (prog # root # ndl # a # rest)) = 2"
    by (cases rest) (auto simp: wmain_def)
  from 1 2 3 4 5 show ?thesis by blast
qed

theorem wmain_exit_code_example:
  "exit_code (wmain env0 [wide ''ffind'', wide ''root'']) = 2
   \<and> exit_code (wmain env0 [wide ''ffind'', wide ''root'', wide ''x'', wide ''-q'']) = 2
   \<and> exit_code (wmain env0 [wide ''ffind'', wide ''root'', wide ''x'', wide ''-e'']) = 2
   \<and> exit_code (wmain (env0\<lparr>env_hs_ok := False\<rparr>) [wide ''ffind'', wide ''root'', wide ''x'']) = 1
   \<and> exit_code (wmain env0 [wide ''ffind'', wide ''root'', wide ''x'', wide ''-e'', wide ''c'', wide ''-f'']) = 0
   \<and> env_found env0 = 0"
proof -
  have o: "\<not> options_ok [wide ''-q'']" "\<not> options_ok [wide ''-e'']"
    "options_ok [wide ''-e'', wide ''c'', wide ''-f'']" "options_ok []"
    by (simp_all add: wide_simps)
  have e: "env_root_copy_ok env0" "env_hs_ok env0" "env_found env0 = 0"
    by (simp_all add: env0_def)
  show ?thesis
    using wmain_exit_code [of env0 "[wide ''ffind'', wide ''root'']" "[]" "[]" "[]" "[]" "[]"]
      wmain_exit_code [of env0 "[wide ''ffind'', wide ''root'', wide ''x'', wide ''-q'']" "[]" "[]" "[]" "[]" "[]"]
      wmain_exit_code [of env0 "[wide ''ffind'', wide ''root'', wide ''x'', wide ''-e'']" "[]" "[]" "[]" "[]" "[]"]
      wmain_exit_code [of "env0\<lparr>env_hs_ok := False\<rparr>" "[wide ''ffind'', wide ''root'', wide ''x'']" "[]" "[]" "[]" "[]" "[]"]
      wmain_exit_code [of env0 "[wide ''ffind'', wide ''root'', wide ''x'', wide ''-e'', wide ''c'', wide ''-f'']" "[]" "[]" "[]" "[]" "[]"]
      o e
    by simp
qed

text \<open>
  Claim C8 fails on the code at one of the three allocations that precede the
  start of the workers. The root is put on the queue by \<^verbatim>\<open>wq_push_owned\<close>,
  which allocates the node of the list and, when that fails, frees the string
  and returns with nothing for \<^verbatim>\<open>wmain\<close> to test: the workers are started
  on an empty queue, the message is not written, and the exit code is 0 with
  nothing scanned. When one of the other two allocations fails (the copy of
  the root, the array of thread handles), \<^verbatim>\<open>wmain\<close> writes the message and
  returns 1.
\<close>

theorem wmain_root_node_failure:
  "exit_code (wmain (env0\<lparr>env_root_node_ok := False, env_dirs_scanned := 0\<rparr>)
      [wide ''ffind'', wide ''root'', wide ''x'']) = 0
   \<and> stderr_out (wmain (env0\<lparr>env_root_node_ok := False, env_dirs_scanned := 0\<rparr>)
      [wide ''ffind'', wide ''root'', wide ''x'']) = [Summary 0 0 0 8]
   \<and> map_option l_queue (launched (wmain (env0\<lparr>env_root_node_ok := False, env_dirs_scanned := 0\<rparr>)
      [wide ''ffind'', wide ''root'', wide ''x''])) = Some []
   \<and> map_option l_workers (launched (wmain (env0\<lparr>env_root_node_ok := False, env_dirs_scanned := 0\<rparr>)
      [wide ''ffind'', wide ''root'', wide ''x''])) = Some 8
   \<and> map_option launch_proc (launched (wmain (env0\<lparr>env_root_node_ok := False, env_dirs_scanned := 0\<rparr>)
      [wide ''ffind'', wide ''root'', wide ''x''])) = Some (init_proc 8 [])
   \<and> wmain (env0\<lparr>env_root_copy_ok := False\<rparr>) [wide ''ffind'', wide ''root'', wide ''x'']
       = \<lparr>exit_code = 1, stderr_out = [OutOfMemory], launched = None\<rparr>
   \<and> wmain (env0\<lparr>env_hs_ok := False\<rparr>) [wide ''ffind'', wide ''root'', wide ''x'']
       = \<lparr>exit_code = 1, stderr_out = [OutOfMemory], launched = None\<rparr>"
  by (simp add: wmain_def run_workers_def default_threads_def env0_def opts0_def Let_def
      launch_proc_def)

text \<open>
  With accepted options that set a positive number of threads, and with every
  allocation and thread creation succeeding, \<^verbatim>\<open>wmain\<close> starts that many
  workers on the queue that holds the root.
\<close>

lemma wmain_launches:
  assumes "parse_opts xs opts0 = Inr ops" "0 < o_threads ops"
    and "env_root_copy_ok e" "env_root_node_ok e" "env_hs_ok e"
    and "o_threads ops \<le> int (env_created e)"
  shows "map_option launch_proc (launched (wmain e (prog # root # ndl # xs)))
     = Some (init_proc (nat (o_threads ops)) [root])"
  using assms
  by (simp add: wmain_def run_workers_def default_threads_def Let_def launch_proc_def)

lemma wtoi_digits_nondigit: "s = [] \<or> \<not> is_digit_c (hd s) \<Longrightarrow> wtoi_digits acc s = acc"
  by (cases s) auto

lemma int_saturate_0: "int_saturate 0 = 0"
  by (simp add: int_saturate_def)

lemma wtoi_non_numeric:
  assumes "\<not> numeric v"
  shows "wtoi v = 0"
proof (cases "dropWhile is_space_c v")
  case Nil
  show ?thesis unfolding wtoi_def Nil by simp
next
  case (Cons c r)
  show ?thesis
  proof (cases "c = ch_minus \<or> c = ch_plus")
    case True
    have "r = [] \<or> \<not> is_digit_c (hd r)"
      using assms True unfolding numeric_def Cons by simp
    then have "wtoi_digits 0 r = 0" by (rule wtoi_digits_nondigit)
    with True show ?thesis unfolding wtoi_def Cons by (auto simp: int_saturate_0)
  next
    case False
    have "\<not> is_digit_c c"
      using assms False unfolding numeric_def Cons by simp
    then have "wtoi_digits 0 (c # r) = 0" by simp
    with False show ?thesis unfolding wtoi_def Cons by (simp add: int_saturate_0)
  qed
qed

lemma parse_opts_no_t:
  "wide ''-t'' \<notin> set xs \<Longrightarrow> parse_opts xs ops = Inr ops' \<Longrightarrow> o_threads ops' = o_threads ops"
proof (induction xs ops rule: parse_opts.induct)
  case (1 ops)
  then show ?case by simp
next
  case (2 a ops)
  then show ?case by (auto split: if_splits)
next
  case (3 a v rest ops)
  then show ?case by (auto split: if_splits)
qed

lemma default_threads_le0:
  "t \<le> 0 \<Longrightarrow> default_threads e t = max 1 (sint (env_nprocs e))"
  by (simp add: default_threads_def Let_def max_def)

lemma parse_opts_append:
  "parse_opts xs ops = Inr ops1 \<Longrightarrow> parse_opts (xs @ ys) ops = parse_opts ys ops1"
proof (induction xs ops rule: parse_opts.induct)
  case (1 ops)
  then show ?case by simp
next
  case (2 a ops)
  then show ?case using flag_distinct by (cases ys) (auto split: if_splits)
next
  case (3 a v rest ops)
  then show ?case using flag_distinct by (auto split: if_splits)
qed

lemma parse_opts_accepts: "options_ok xs \<Longrightarrow> \<exists>ops1. parse_opts xs ops = Inr ops1"
  using parse_opts_ok [of xs ops] by (cases "parse_opts xs ops") auto

lemma parse_opts_t:
  "parse_opts (wide ''-t'' # v # rest) ops = parse_opts rest (ops\<lparr>o_threads := wtoi v\<rparr>)"
  using flag_distinct by simp

lemma parse_opts_t_last:
  assumes "options_ok pre" "options_ok post" "wide ''-t'' \<notin> set post"
  shows "\<exists>ops. parse_opts (pre @ wide ''-t'' # v # post) opts0 = Inr ops \<and> o_threads ops = wtoi v"
proof -
  obtain o1 where o1: "parse_opts pre opts0 = Inr o1"
    using parse_opts_accepts [OF assms(1)] by blast
  obtain o2 where o2: "parse_opts post (o1\<lparr>o_threads := wtoi v\<rparr>) = Inr o2"
    using parse_opts_accepts [OF assms(2)] by blast
  have "o_threads o2 = o_threads (o1\<lparr>o_threads := wtoi v\<rparr>)"
    using assms(3) o2 by (rule parse_opts_no_t)
  then have "o_threads o2 = wtoi v" by simp
  moreover have "parse_opts (pre @ wide ''-t'' # v # post) opts0 = Inr o2"
    by (simp only: parse_opts_append [OF o1] parse_opts_t o2)
  ultimately show ?thesis by blast
qed

lemma parse_opts_t_missing:
  assumes "options_ok pre"
  shows "parse_opts (pre @ [wide ''-t'']) opts0 = Inl (wide ''-t'')"
proof -
  obtain o1 where o1: "parse_opts pre opts0 = Inr o1"
    using parse_opts_accepts [OF assms(1)] by blast
  show ?thesis using flag_distinct by (simp add: parse_opts_append [OF o1])
qed

lemma wmain_default:
  assumes "parse_opts xs opts0 = Inr ops" "o_threads ops \<le> 0"
  shows "exit_code (wmain e (prog # root # ndl # xs)) \<noteq> 2
     \<and> Usage \<notin> set (stderr_out (wmain e (prog # root # ndl # xs)))
     \<and> (env_root_copy_ok e \<and> env_hs_ok e \<longrightarrow>
          exit_code (wmain e (prog # root # ndl # xs)) = 0 \<and>
          map_option l_threads (launched (wmain e (prog # root # ndl # xs)))
            = Some (max 1 (sint (env_nprocs e))))"
proof -
  have w: "wmain e (prog # root # ndl # xs) = run_workers e root ndl ops"
    using assms(1) by (simp add: wmain_def)
  show ?thesis
    using default_threads_le0 [OF assms(2), of e]
    by (simp add: w run_workers_def Let_def)
qed

text \<open>
  Claim C9, as amended. Let the options before and after an occurrence of
  \<^verbatim>\<open>-t\<close> with a value be accepted ones, with no \<^verbatim>\<open>-t\<close> among those after
  it, and let the value be not numeric (\<^verbatim>\<open>_wtoi\<close> then returns 0) or not
  positive. Then the run does not end with exit code 2 and does not write the
  usage text, and when the two allocations of \<^verbatim>\<open>wmain\<close> succeed it ends
  with exit code 0 and \<^verbatim>\<open>threads\<close> set to the number of processors, or to
  1 when that number is below 1. The same holds when \<^verbatim>\<open>-t\<close> is not given
  at all. When \<^verbatim>\<open>-t\<close> is the last argument, with no value after it, the
  run ends with exit code 2, the option reported as unknown.
\<close>

theorem worker_count_default:
  "(options_ok pre \<and> options_ok post \<and> wide ''-t'' \<notin> set post \<and> (\<not> numeric v \<or> wtoi v \<le> 0) \<longrightarrow>
      exit_code (wmain e (prog # root # ndl # pre @ wide ''-t'' # v # post)) \<noteq> 2
      \<and> Usage \<notin> set (stderr_out (wmain e (prog # root # ndl # pre @ wide ''-t'' # v # post)))
      \<and> (env_root_copy_ok e \<and> env_hs_ok e \<longrightarrow>
           exit_code (wmain e (prog # root # ndl # pre @ wide ''-t'' # v # post)) = 0 \<and>
           map_option l_threads (launched (wmain e (prog # root # ndl # pre @ wide ''-t'' # v # post)))
             = Some (max 1 (sint (env_nprocs e)))))
   \<and> (options_ok xs \<and> wide ''-t'' \<notin> set xs \<longrightarrow>
      exit_code (wmain e (prog # root # ndl # xs)) \<noteq> 2
      \<and> Usage \<notin> set (stderr_out (wmain e (prog # root # ndl # xs)))
      \<and> (env_root_copy_ok e \<and> env_hs_ok e \<longrightarrow>
           exit_code (wmain e (prog # root # ndl # xs)) = 0 \<and>
           map_option l_threads (launched (wmain e (prog # root # ndl # xs)))
             = Some (max 1 (sint (env_nprocs e)))))
   \<and> (\<not> numeric v \<longrightarrow> wtoi v = 0)
   \<and> (options_ok pre \<longrightarrow>
        wmain e (prog # root # ndl # pre @ [wide ''-t''])
          = \<lparr>exit_code = 2, stderr_out = [UnknownOption (wide ''-t''), Usage], launched = None\<rparr>)"
proof -
  have n: "wtoi v = 0" if "\<not> numeric v" using that by (rule wtoi_non_numeric)
  have 1: "exit_code (wmain e (prog # root # ndl # pre @ wide ''-t'' # v # post)) \<noteq> 2
      \<and> Usage \<notin> set (stderr_out (wmain e (prog # root # ndl # pre @ wide ''-t'' # v # post)))
      \<and> (env_root_copy_ok e \<and> env_hs_ok e \<longrightarrow>
           exit_code (wmain e (prog # root # ndl # pre @ wide ''-t'' # v # post)) = 0 \<and>
           map_option l_threads (launched (wmain e (prog # root # ndl # pre @ wide ''-t'' # v # post)))
             = Some (max 1 (sint (env_nprocs e))))"
    if a: "options_ok pre" "options_ok post" "wide ''-t'' \<notin> set post" "\<not> numeric v \<or> wtoi v \<le> 0"
  proof -
    obtain ops where ops: "parse_opts (pre @ wide ''-t'' # v # post) opts0 = Inr ops"
        "o_threads ops = wtoi v"
      using parse_opts_t_last [OF a(1,2,3)] by blast
    have "wtoi v \<le> 0" using a(4) n by auto
    then have "o_threads ops \<le> 0" by (simp only: ops(2))
    with ops(1) show ?thesis by (rule wmain_default)
  qed
  have 2: "exit_code (wmain e (prog # root # ndl # xs)) \<noteq> 2
      \<and> Usage \<notin> set (stderr_out (wmain e (prog # root # ndl # xs)))
      \<and> (env_root_copy_ok e \<and> env_hs_ok e \<longrightarrow>
           exit_code (wmain e (prog # root # ndl # xs)) = 0 \<and>
           map_option l_threads (launched (wmain e (prog # root # ndl # xs)))
             = Some (max 1 (sint (env_nprocs e))))"
    if a: "options_ok xs" "wide ''-t'' \<notin> set xs"
  proof -
    obtain ops where ops: "parse_opts xs opts0 = Inr ops"
      using parse_opts_accepts [OF a(1)] by blast
    have "o_threads ops = o_threads opts0" using a(2) ops by (rule parse_opts_no_t)
    then have "o_threads ops \<le> 0" by (simp add: opts0_def)
    with ops show ?thesis by (rule wmain_default)
  qed
  have 4: "wmain e (prog # root # ndl # pre @ [wide ''-t''])
          = \<lparr>exit_code = 2, stderr_out = [UnknownOption (wide ''-t''), Usage], launched = None\<rparr>"
    if "options_ok pre"
    using parse_opts_t_missing [OF that] by (simp add: wmain_def)
  from 1 2 n 4 show ?thesis by blast
qed

theorem worker_count_default_witness:
  "exit_code (wmain env0 [wide ''ffind'', wide ''root'', wide ''x'', wide ''-t'', wide ''abc'', wide ''-f'']) = 0
   \<and> map_option l_threads (launched
        (wmain env0 [wide ''ffind'', wide ''root'', wide ''x'', wide ''-t'', wide ''abc'', wide ''-f'']))
      = Some 8
   \<and> map_option l_threads (launched
        (wmain env0 [wide ''ffind'', wide ''root'', wide ''x'', wide ''-e'', wide ''c'', wide ''-t'', wide ''-3'']))
      = Some 8
   \<and> map_option l_threads (launched
        (wmain (env0\<lparr>env_nprocs := 0\<rparr>) [wide ''ffind'', wide ''root'', wide ''x'', wide ''-f'']))
      = Some 1
   \<and> wtoi (wide ''abc'') = 0
   \<and> wtoi (wide ''-3'') = - 3
   \<and> exit_code (wmain env0 [wide ''ffind'', wide ''root'', wide ''x'', wide ''-f'', wide ''-t'']) = 2"
proof -
  have n: "\<not> numeric (wide ''abc'')"
    by (simp add: numeric_def wide_simps is_space_c_def is_digit_c_def ch_minus_def ch_plus_def)
  have m: "wtoi (wide ''-3'') = - 3"
    by (simp add: wtoi_def wide_simps is_space_c_def is_digit_c_def ch_minus_def ch_plus_def
        int_saturate_def)
  have o: "options_ok []" "options_ok [wide ''-f'']" "options_ok [wide ''-e'', wide ''c'']"
    "wide ''-t'' \<notin> set [wide ''-f'']" "wide ''-t'' \<notin> set []"
    by (simp_all add: wide_simps)
  have e: "env_root_copy_ok env0" "env_hs_ok env0" "sint (env_nprocs env0) = 8"
    "env_root_copy_ok (env0\<lparr>env_nprocs := 0\<rparr>)" "env_hs_ok (env0\<lparr>env_nprocs := 0\<rparr>)"
    by (simp_all add: env0_def)
  note a = worker_count_default [where pre = "[]" and post = "[wide ''-f'']" and v = "wide ''abc''"
      and e = env0 and prog = "wide ''ffind''" and root = "wide ''root''" and ndl = "wide ''x''"
      and xs = "[]"]
  note b = worker_count_default [where pre = "[wide ''-e'', wide ''c'']" and post = "[]"
      and v = "wide ''-3''" and e = env0 and prog = "wide ''ffind''" and root = "wide ''root''"
      and ndl = "wide ''x''" and xs = "[]"]
  note c = worker_count_default [where pre = "[wide ''-f'']" and post = "[]" and v = "[]"
      and e = "env0\<lparr>env_nprocs := 0\<rparr>" and prog = "wide ''ffind''" and root = "wide ''root''"
      and ndl = "wide ''x''" and xs = "[wide ''-f'']"]
  note d = worker_count_default [where pre = "[wide ''-f'']" and post = "[]" and v = "[]"
      and e = env0 and prog = "wide ''ffind''" and root = "wide ''root''"
      and ndl = "wide ''x''" and xs = "[]"]
  from a n have w0: "wtoi (wide ''abc'') = 0" by blast
  from a o n e have 1: "exit_code (wmain env0 [wide ''ffind'', wide ''root'', wide ''x'', wide ''-t'', wide ''abc'', wide ''-f'']) = 0
   \<and> map_option l_threads (launched
        (wmain env0 [wide ''ffind'', wide ''root'', wide ''x'', wide ''-t'', wide ''abc'', wide ''-f'']))
      = Some 8" by simp
  from b o m e have 2: "map_option l_threads (launched
        (wmain env0 [wide ''ffind'', wide ''root'', wide ''x'', wide ''-e'', wide ''c'', wide ''-t'', wide ''-3'']))
      = Some 8" by simp
  from c o e have 3: "map_option l_threads (launched
        (wmain (env0\<lparr>env_nprocs := 0\<rparr>) [wide ''ffind'', wide ''root'', wide ''x'', wide ''-f'']))
      = Some 1" by simp
  from d o have 4: "exit_code (wmain env0 [wide ''ffind'', wide ''root'', wide ''x'', wide ''-f'', wide ''-t'']) = 2"
    by simp
  from 1 2 3 4 w0 m show ?thesis by blast
qed

text \<open>
  Claim C9 as stated fails where the value of \<^verbatim>\<open>-t\<close> is omitted: the test
  \<^verbatim>\<open>i + 1 < argc\<close> sends a final \<^verbatim>\<open>-t\<close> to the branch of the unknown
  options, an error exit.
\<close>

theorem worker_count_missing_value_counterexample:
  "wmain env0 [wide ''ffind'', wide ''root'', wide ''x'', wide ''-t'']
     = \<lparr>exit_code = 2, stderr_out = [UnknownOption (wide ''-t''), Usage], launched = None\<rparr>"
  by (simp add: wmain_def wide_simps)

section \<open>Properties of paths and of the directory tree\<close>

lemma is_dot_or_dotdot_iff:
  assumes "cstring s"
  shows "is_dot_or_dotdot s = (s = [ch_dot] \<or> s = [ch_dot, ch_dot])"
proof (cases s)
  case Nil
  then show ?thesis by (simp add: is_dot_or_dotdot_def ch_dot_def)
next
  case s1: (Cons a r)
  show ?thesis
  proof (cases r)
    case Nil
    with s1 show ?thesis by (auto simp: is_dot_or_dotdot_def ch_dot_def)
  next
    case r1: (Cons b r')
    with s1 assms have nz: "b \<noteq> 0" by (auto simp: cstring_def)
    show ?thesis
    proof (cases r')
      case Nil
      with s1 r1 nz show ?thesis by (auto simp: is_dot_or_dotdot_def)
    next
      case (Cons c r'')
      with s1 r1 assms have "c \<noteq> 0" by (auto simp: cstring_def)
      with s1 r1 Cons nz show ?thesis by (auto simp: is_dot_or_dotdot_def)
    qed
  qed
qed

lemma join_path_eq:
  "join_path cap dir name =
     (if fits (Some cap) (child_path dir name) then Some (child_path dir name) else None)"
  by (auto simp: join_path_def fits_def child_path_def Let_def)

lemma make_glob_eq:
  "make_glob cap dir =
     (if fits (Some cap) (pattern_of dir) then Some (pattern_of dir) else None)"
  by (auto simp: make_glob_def fits_def pattern_of_def Let_def)

lemma find_files_eq:
  "find_files w dir =
     (if fits (Some buf_cap) (pattern_of dir) then w_fs w (pattern_of dir) else [])"
  by (simp add: find_files_def make_glob_eq)

lemma classify_eq:
  "classify c dir fd =
     (if is_dot_or_dotdot (cFileName fd) \<or> \<not> fits (Some buf_cap) (child_path dir (cFileName fd))
      then Skip
      else if is_dir fd then
        (if is_reparse fd then Skip else Push (child_path dir (cFileName fd)))
      else File (passes c dir fd) (child_path dir (cFileName fd)))"
  by (simp add: classify_def join_path_eq is_dir_def is_reparse_def passes_def
      substring_filter_def)

lemma pushes_eq:
  "pushes c dir fds =
     map (\<lambda>fd. child_path dir (cFileName fd))
       (filter (\<lambda>fd. is_dir fd \<and> \<not> is_reparse fd)
         (filter (\<lambda>fd. \<not> is_dot_or_dotdot (cFileName fd) \<and>
                      fits (Some buf_cap) (child_path dir (cFileName fd))) fds))"
  by (induction fds) (simp_all add: classify_eq)

lemma prints_eq:
  "prints c dir fds =
     map (\<lambda>fd. child_path dir (cFileName fd))
       (filter (\<lambda>fd. \<not> is_dir fd \<and> passes c dir fd)
         (filter (\<lambda>fd. \<not> is_dot_or_dotdot (cFileName fd) \<and>
                      fits (Some buf_cap) (child_path dir (cFileName fd))) fds))"
  by (induction fds) (simp_all add: classify_eq)

lemma pushes_find_files:
  "pushes (w_ctx w) dir (find_files w dir) = real_subdirs (Some buf_cap) (w_fs w) dir"
  by (simp add: pushes_eq real_subdirs_def children_def find_files_eq)

lemma prints_find_files:
  "prints (w_ctx w) dir (find_files w dir) = matching_files (Some buf_cap) w dir"
  by (simp add: prints_eq matching_files_def children_def find_files_eq)

lemma finite_below_mono:
  "finite_below lim fs n dir \<Longrightarrow> n \<le> m \<Longrightarrow> finite_below lim fs m dir"
proof (induction n arbitrary: dir m)
  case 0
  then show ?case by simp
next
  case (Suc n)
  then obtain m' where m: "m = Suc m'" "n \<le> m'" by (cases m) auto
  have "finite_below lim fs m' sub" if "sub \<in> set (real_subdirs lim fs dir)" for sub
  proof -
    from Suc.prems(1) that have "finite_below lim fs n sub" by (simp add: list_all_iff)
    then show ?thesis using m(2) by (rule Suc.IH)
  qed
  then show ?case unfolding m(1) by (simp add: list_all_iff)
qed

lemma tree_list_mono:
  "finite_below lim (w_fs w) n dir \<Longrightarrow> n \<le> m \<Longrightarrow> tree_list lim w m dir = tree_list lim w n dir"
proof (induction n arbitrary: dir m)
  case 0
  then show ?case by simp
next
  case (Suc n)
  then obtain m' where m: "m = Suc m'" "n \<le> m'" by (cases m) auto
  have "map (tree_list lim w m') (real_subdirs lim (w_fs w) dir) =
        map (tree_list lim w n) (real_subdirs lim (w_fs w) dir)"
  proof (intro map_cong refl)
    fix sub assume "sub \<in> set (real_subdirs lim (w_fs w) dir)"
    with Suc.prems(1) have "finite_below lim (w_fs w) n sub" by (simp add: list_all_iff)
    then show "tree_list lim w m' sub = tree_list lim w n sub" using m(2) by (rule Suc.IH)
  qed
  then show ?case unfolding m(1) by (simp only: tree_list.simps)
qed

lemma tree_steps_mono:
  "finite_below (Some buf_cap) (w_fs w) n dir \<Longrightarrow> n \<le> m \<Longrightarrow>
   tree_steps w m dir = tree_steps w n dir"
proof (induction n arbitrary: dir m)
  case 0
  then show ?case by simp
next
  case (Suc n)
  then obtain m' where m: "m = Suc m'" "n \<le> m'" by (cases m) auto
  have "map (tree_steps w m') (real_subdirs (Some buf_cap) (w_fs w) dir) =
        map (tree_steps w n) (real_subdirs (Some buf_cap) (w_fs w) dir)"
  proof (intro map_cong refl)
    fix sub assume "sub \<in> set (real_subdirs (Some buf_cap) (w_fs w) dir)"
    with Suc.prems(1) have "finite_below (Some buf_cap) (w_fs w) n sub"
      by (simp add: list_all_iff)
    then show "tree_steps w m' sub = tree_steps w n sub" using m(2) by (rule Suc.IH)
  qed
  then show ?case unfolding m(1) by (simp only: tree_steps.simps)
qed

lemma finite_below_subdirs:
  assumes "finite_below lim fs n dir" "sub \<in> set (real_subdirs lim fs dir)"
  shows "finite_below lim fs n sub"
proof (cases n)
  case 0
  with assms show ?thesis by simp
next
  case (Suc k)
  with assms have "finite_below lim fs k sub" by (simp add: list_all_iff)
  moreover have "k \<le> n" using Suc by simp
  ultimately show ?thesis by (rule finite_below_mono)
qed

lemma tree_list_unfold:
  assumes "finite_below lim (w_fs w) n dir"
  shows "tree_list lim w n dir =
     matching_files lim w dir @ concat (map (tree_list lim w n) (real_subdirs lim (w_fs w) dir))"
proof (cases n)
  case 0
  with assms show ?thesis by simp
next
  case (Suc k)
  have eq: "map (tree_list lim w k) (real_subdirs lim (w_fs w) dir) =
        map (tree_list lim w n) (real_subdirs lim (w_fs w) dir)"
  proof (intro map_cong refl)
    fix sub assume "sub \<in> set (real_subdirs lim (w_fs w) dir)"
    with assms Suc have "finite_below lim (w_fs w) k sub" by (simp add: list_all_iff)
    moreover have "k \<le> n" using Suc by simp
    ultimately show "tree_list lim w k sub = tree_list lim w n sub"
      by (rule tree_list_mono [symmetric])
  qed
  have "tree_list lim w n dir =
     matching_files lim w dir @ concat (map (tree_list lim w k) (real_subdirs lim (w_fs w) dir))"
    unfolding Suc by (simp only: tree_list.simps)
  also have "\<dots> =
     matching_files lim w dir @ concat (map (tree_list lim w n) (real_subdirs lim (w_fs w) dir))"
    by (simp only: eq)
  finally show ?thesis .
qed

lemma tree_steps_unfold:
  assumes "finite_below (Some buf_cap) (w_fs w) n dir"
  shows "tree_steps w n dir =
     2 + length (find_files w dir) +
     sum_list (map (tree_steps w n) (real_subdirs (Some buf_cap) (w_fs w) dir))"
proof (cases n)
  case 0
  with assms show ?thesis by simp
next
  case (Suc k)
  have eq: "map (tree_steps w k) (real_subdirs (Some buf_cap) (w_fs w) dir) =
        map (tree_steps w n) (real_subdirs (Some buf_cap) (w_fs w) dir)"
  proof (intro map_cong refl)
    fix sub assume "sub \<in> set (real_subdirs (Some buf_cap) (w_fs w) dir)"
    with assms Suc have "finite_below (Some buf_cap) (w_fs w) k sub" by (simp add: list_all_iff)
    moreover have "k \<le> n" using Suc by simp
    ultimately show "tree_steps w k sub = tree_steps w n sub"
      by (rule tree_steps_mono [symmetric])
  qed
  have "tree_steps w n dir = 2 + length (find_files w dir) +
     sum_list (map (tree_steps w k) (real_subdirs (Some buf_cap) (w_fs w) dir))"
    unfolding Suc by (simp only: tree_steps.simps)
  also have "\<dots> = 2 + length (find_files w dir) +
     sum_list (map (tree_steps w n) (real_subdirs (Some buf_cap) (w_fs w) dir))"
    by (simp only: eq)
  finally show ?thesis .
qed

section \<open>Properties of the queue\<close>

lemma sum_list_update:
  fixes f :: "'b \<Rightarrow> 'a::comm_monoid_add"
  shows "i < length ts \<Longrightarrow>
    sum_list (map f (ts[i := t])) + f (ts ! i) = sum_list (map f ts) + f t"
proof (induction ts arbitrary: i)
  case Nil
  then show ?case by simp
next
  case (Cons x ts)
  show ?case
  proof (cases i)
    case 0
    then show ?thesis by (simp add: ac_simps)
  next
    case (Suc j)
    with Cons.prems have "j < length ts" by simp
    from Cons.IH [OF this] Suc show ?thesis by (simp add: add.assoc)
  qed
qed

lemma sum_list_update_less:
  fixes f :: "'b \<Rightarrow> 'a::cancel_comm_monoid_add"
  assumes "i < length ts" "f (ts ! i) = f t + x"
  shows "sum_list (map f (ts[i := t])) + x = sum_list (map f ts)"
proof -
  have "sum_list (map f (ts[i := t])) + (f t + x) = sum_list (map f ts) + f t"
    using sum_list_update [OF assms(1), of f t] assms(2) by simp
  then have "(sum_list (map f (ts[i := t])) + x) + f t = sum_list (map f ts) + f t"
    by (simp add: ac_simps)
  then show ?thesis by (rule add_right_imp_eq)
qed

lemma sum_list_update_more:
  fixes f :: "'b \<Rightarrow> 'a::cancel_comm_monoid_add"
  assumes "i < length ts" "f t = f (ts ! i) + x"
  shows "sum_list (map f (ts[i := t])) = sum_list (map f ts) + x"
proof -
  have "sum_list (map f (ts[i := t])) + f (ts ! i) = sum_list (map f ts) + (f (ts ! i) + x)"
    using sum_list_update [OF assms(1), of f t] assms(2) by simp
  then have "sum_list (map f (ts[i := t])) + f (ts ! i) = (sum_list (map f ts) + x) + f (ts ! i)"
    by (simp add: ac_simps)
  then show ?thesis by (rule add_right_imp_eq)
qed

lemma woken_wake_all: "woken ts (wake_all ts)"
  by (simp add: woken_def wake_all_def)

lemma woken_wake_one: "wake_one j ts = Some ts' \<Longrightarrow> woken ts ts'"
  by (auto simp: woken_def wake_one_def nth_list_update split: if_splits)

lemma woken_map:
  assumes "woken ts ts'" "f Sleeping = f Popping"
  shows "map f ts' = map f ts"
proof (rule nth_equalityI)
  show "length (map f ts') = length (map f ts)" using assms(1) by (simp add: woken_def)
next
  fix k assume "k < length (map f ts')"
  then have k: "k < length ts" using assms(1) by (simp add: woken_def)
  with assms(1) have "ts' ! k = ts ! k \<or> (ts ! k = Sleeping \<and> ts' ! k = Popping)"
    by (simp add: woken_def)
  with assms(2) have "f (ts' ! k) = f (ts ! k)" by auto
  with k assms(1) show "map f ts' ! k = map f ts ! k" by (simp add: woken_def)
qed

lemma woken_nscan: "woken ts ts' \<Longrightarrow> sum_list (map nscan ts') = sum_list (map nscan ts)"
  using woken_map [of ts ts' nscan] by simp

lemma woken_length: "woken ts ts' \<Longrightarrow> length ts' = length ts"
  by (simp add: woken_def)

lemma woken_mem:
  assumes "woken ts ts'" "t \<noteq> Popping"
  shows "t \<in> set ts' \<Longrightarrow> t \<in> set ts"
proof -
  assume "t \<in> set ts'"
  then obtain k where k: "k < length ts'" "ts' ! k = t" by (auto simp: in_set_conv_nth)
  with assms have "ts ! k = t" "k < length ts" by (auto simp: woken_def)
  then show ?thesis by (auto simp: in_set_conv_nth)
qed

lemma wake_all_no_sleeper: "Sleeping \<notin> set (wake_all ts)"
  by (auto simp: wake_all_def)

lemma wake_all_id: "Sleeping \<notin> set ts \<Longrightarrow> wake_all ts = ts"
  by (auto simp: wake_all_def intro: map_idI)

lemma nscan_zero: "(sum_list (map nscan ts) = 0) = (\<forall>t\<in>set ts. nscan t = 0)"
  by (induction ts) auto

lemma thread_step_cases [consumes 1, case_names pop_stop pop_dir pop_last pop_wait finish
    skip push_fail push file_hit file_miss spurious]:
  assumes "thread_step w i c s = Some s'"
  obtains
    "i < length (threads s)" "threads s ! i = Popping" "stop s"
      "s' = s\<lparr>threads := (threads s)[i := Exited]\<rparr>"
  | dir rest where "i < length (threads s)" "threads s ! i = Popping" "\<not> stop s"
      "queue s = dir # rest"
      "s' = s\<lparr>queue := rest, active_workers := active_workers s + 1,
              dirs_scanned := dirs_scanned s + 1,
              threads := (threads s)[i := Scanning dir (find_files w dir)]\<rparr>"
  | "i < length (threads s)" "threads s ! i = Popping" "\<not> stop s" "queue s = []"
      "active_workers s = 0"
      "s' = s\<lparr>stop := True, threads := (wake_all (threads s))[i := Exited]\<rparr>"
  | "i < length (threads s)" "threads s ! i = Popping" "\<not> stop s" "queue s = []"
      "active_workers s \<noteq> 0"
      "s' = s\<lparr>threads := (threads s)[i := Sleeping]\<rparr>"
  | dir where "i < length (threads s)" "threads s ! i = Scanning dir []"
      "s' = s\<lparr>active_workers := active_workers s - 1,
              threads := (wake_all (threads s))[i := Popping]\<rparr>"
  | dir fd fds where "i < length (threads s)" "threads s ! i = Scanning dir (fd # fds)"
      "classify (w_ctx w) dir fd = Skip"
      "s' = s\<lparr>threads := (threads s)[i := Scanning dir fds]\<rparr>"
  | dir fd fds full where "i < length (threads s)" "threads s ! i = Scanning dir (fd # fds)"
      "classify (w_ctx w) dir fd = Push full" "c_copy_fail c \<or> c_node_fail c"
      "s' = s\<lparr>threads := (threads s)[i := Scanning dir fds]\<rparr>"
  | dir fd fds full ts where "i < length (threads s)" "threads s ! i = Scanning dir (fd # fds)"
      "classify (w_ctx w) dir fd = Push full" "\<not> c_copy_fail c" "\<not> c_node_fail c"
      "woken ((threads s)[i := Scanning dir fds]) ts"
      "s' = s\<lparr>queue := queue s @ [full], threads := ts\<rparr>"
  | dir fd fds full where "i < length (threads s)" "threads s ! i = Scanning dir (fd # fds)"
      "classify (w_ctx w) dir fd = File True full"
      "s' = s\<lparr>files_scanned := files_scanned s + 1, found := found s + 1,
              out_lines := out_lines s @ [full],
              threads := (threads s)[i := Scanning dir fds]\<rparr>"
  | dir fd fds full where "i < length (threads s)" "threads s ! i = Scanning dir (fd # fds)"
      "classify (w_ctx w) dir fd = File False full"
      "s' = s\<lparr>files_scanned := files_scanned s + 1,
              threads := (threads s)[i := Scanning dir fds]\<rparr>"
  | "i < length (threads s)" "threads s ! i = Sleeping" "c_spurious c"
      "s' = s\<lparr>threads := (threads s)[i := Popping]\<rparr>"
proof -
  from assms have i: "i < length (threads s)"
    by (auto simp: thread_step_def split: if_splits)
  show ?thesis
  proof (cases "threads s ! i")
    case Popping
    show ?thesis
    proof (cases "stop s")
      case True
      with assms i Popping have "s' = s\<lparr>threads := (threads s)[i := Exited]\<rparr>"
        by (simp add: thread_step_def wq_pop_def set_thread_def)
      with i Popping True show ?thesis by (rule that(1))
    next
      case ns: False
      show ?thesis
      proof (cases "queue s")
        case (Cons dir rest)
        with assms i Popping ns
        have "s' = s\<lparr>queue := rest, active_workers := active_workers s + 1,
              dirs_scanned := dirs_scanned s + 1,
              threads := (threads s)[i := Scanning dir (find_files w dir)]\<rparr>"
          by (simp add: thread_step_def wq_pop_def set_thread_def)
        with i Popping ns Cons show ?thesis by (rule that(2))
      next
        case Nil
        show ?thesis
        proof (cases "active_workers s = 0")
          case True
          with assms i Popping ns Nil
          have "s' = s\<lparr>stop := True, threads := (wake_all (threads s))[i := Exited]\<rparr>"
            by (simp add: thread_step_def wq_pop_def set_thread_def)
          with i Popping ns Nil True show ?thesis by (rule that(3))
        next
          case False
          with assms i Popping ns Nil
          have "s' = s\<lparr>threads := (threads s)[i := Sleeping]\<rparr>"
            by (simp add: thread_step_def wq_pop_def set_thread_def)
          with i Popping ns Nil False show ?thesis by (rule that(4))
        qed
      qed
    qed
  next
    case Sleeping
    with assms i have "c_spurious c" "s' = s\<lparr>threads := (threads s)[i := Popping]\<rparr>"
      by (auto simp add: thread_step_def set_thread_def split: if_splits)
    with i Sleeping show ?thesis by (intro that(11)) simp_all
  next
    case Exited
    with assms i show ?thesis by (simp add: thread_step_def)
  next
    case (Scanning dir es)
    show ?thesis
    proof (cases es)
      case Nil
      with assms i Scanning
      have "s' = s\<lparr>active_workers := active_workers s - 1,
              threads := (wake_all (threads s))[i := Popping]\<rparr>"
        by (simp add: thread_step_def wq_done_one_def set_thread_def)
      with i Scanning Nil show ?thesis by (intro that(5)) simp_all
    next
      case (Cons fd fds)
      note sc = Scanning [unfolded Cons]
      show ?thesis
      proof (cases "classify (w_ctx w) dir fd")
        case Skip
        with assms i sc have "s' = s\<lparr>threads := (threads s)[i := Scanning dir fds]\<rparr>"
          by (simp add: thread_step_def set_thread_def)
        with i sc Skip show ?thesis by (rule that(6))
      next
        case (Push full)
        show ?thesis
        proof (cases "c_copy_fail c \<or> c_node_fail c")
          case True
          with assms i sc Push have "s' = s\<lparr>threads := (threads s)[i := Scanning dir fds]\<rparr>"
            by (auto simp add: thread_step_def set_thread_def wq_push_owned_def Let_def
                split: if_splits)
          with i sc Push True show ?thesis by (rule that(7))
        next
          case False
          with assms i sc Push obtain ts where
            ts: "wake_one (c_wake c) ((threads s)[i := Scanning dir fds]) = Some ts"
            and s': "s' = s\<lparr>queue := queue s @ [full], threads := ts\<rparr>"
            by (auto simp add: thread_step_def set_thread_def wq_push_owned_def Let_def
                split: option.splits if_splits)
          from ts have "woken ((threads s)[i := Scanning dir fds]) ts" by (rule woken_wake_one)
          with i sc Push False s' show ?thesis by (intro that(8)) simp_all
        qed
      next
        case (File m full)
        show ?thesis
        proof (cases m)
          case True
          with assms i sc File
          have "s' = s\<lparr>files_scanned := files_scanned s + 1, found := found s + 1,
              out_lines := out_lines s @ [full],
              threads := (threads s)[i := Scanning dir fds]\<rparr>"
            by (auto simp add: thread_step_def set_thread_def)
          with i sc File True show ?thesis by (intro that(9)) simp_all
        next
          case False
          with assms i sc File
          have "s' = s\<lparr>files_scanned := files_scanned s + 1,
              threads := (threads s)[i := Scanning dir fds]\<rparr>"
            by (auto simp add: thread_step_def set_thread_def)
          with i sc File False show ?thesis by (intro that(10)) simp_all
        qed
      qed
    qed
  qed
qed

lemma scanning_positive:
  "i < length ts \<Longrightarrow> ts ! i = Scanning dir fds \<Longrightarrow> 0 < sum_list (map nscan ts)"
proof -
  assume a: "i < length ts" "ts ! i = Scanning dir fds"
  then have "Scanning dir fds \<in> set ts" by (metis nth_mem)
  then show ?thesis by (induction ts) auto
qed

lemma inv_q_scanning_not_stop:
  assumes "inv_q s" "i < length (threads s)" "threads s ! i = Scanning dir fds"
  shows "\<not> stop s"
proof
  assume "stop s"
  with assms(1) have "\<forall>t\<in>set (threads s). t = Popping \<or> t = Exited" by (simp add: inv_q_def)
  moreover from assms(2,3) have "Scanning dir fds \<in> set (threads s)" by (metis nth_mem)
  ultimately show False by auto
qed

lemma mem_update: "x \<in> set (ts[i := t]) \<Longrightarrow> x = t \<or> x \<in> set ts"
  using set_update_subset_insert [of ts i t] by auto

lemma inv_q_update:
  assumes inv: "inv_q s" and i: "i < length (threads s)"
    and n: "nscan t' = nscan (threads s ! i)"
    and e: "t' = Exited \<longrightarrow> stop s"
    and sl: "t' = Sleeping \<longrightarrow> 0 < sum_list (map nscan (threads s))"
    and st: "stop s \<longrightarrow> t' = Popping \<or> t' = Exited"
    and s': "threads s' = (threads s)[i := t']" "active_workers s' = active_workers s"
      "stop s' = stop s" "queue s' = queue s"
  shows "inv_q s'"
proof -
  have sum: "sum_list (map nscan (threads s')) = sum_list (map nscan (threads s))"
    using sum_list_update [OF i, of nscan t'] n by (simp add: s'(1))
  have mem: "x = t' \<or> x \<in> set (threads s)" if "x \<in> set (threads s')" for x
    using that mem_update unfolding s'(1) by fast
  have 1: "active_workers s' = int (sum_list (map nscan (threads s')))"
    using inv by (simp add: inv_q_def sum s'(2))
  have 2: "stop s' \<longrightarrow> queue s' = [] \<and> (\<forall>t\<in>set (threads s'). t = Popping \<or> t = Exited)"
    using inv st mem by (auto simp: inv_q_def s'(3,4))
  have 3: "Exited \<in> set (threads s') \<longrightarrow> stop s'"
    using inv e mem [of Exited] by (auto simp: inv_q_def s'(3))
  have 4: "Sleeping \<in> set (threads s') \<longrightarrow> 0 < sum_list (map nscan (threads s'))"
    using inv sl mem [of Sleeping] by (auto simp: inv_q_def sum)
  from 1 2 3 4 show ?thesis unfolding inv_q_def by blast
qed

lemma inv_q_step:
  assumes "thread_step w i c s = Some s'" "inv_q s"
  shows "inv_q s'"
  using assms(1)
proof (cases rule: thread_step_cases)
  case pop_stop
  show ?thesis
    by (rule inv_q_update [OF assms(2) pop_stop(1), of Exited])
       (use pop_stop in simp_all)
next
  case (pop_dir dir rest)
  let ?ts = "threads s"
  have sum: "sum_list (map nscan (threads s')) = sum_list (map nscan ?ts) + 1"
    using sum_list_update [OF pop_dir(1), of nscan "Scanning dir (find_files w dir)"] pop_dir
    by simp
  have ne: "Exited \<notin> set (threads s)" using assms(2) pop_dir(3) by (auto simp: inv_q_def)
  have "Exited \<notin> set (threads s')"
    using ne mem_update [of Exited ?ts i] pop_dir(5) by auto
  with sum assms(2) pop_dir show ?thesis by (simp add: inv_q_def)
next
  case pop_last
  let ?ts = "threads s"
  from assms(2) pop_last(5) have z: "sum_list (map nscan ?ts) = 0" by (simp add: inv_q_def)
  have zw: "sum_list (map nscan (wake_all ?ts)) = 0"
    using woken_nscan [OF woken_wake_all, of ?ts] z by simp
  have len: "i < length (wake_all ?ts)" using pop_last(1) by (simp add: wake_all_def)
  have "wake_all ?ts ! i \<in> set (wake_all ?ts)" using len by (rule nth_mem)
  with zw have "nscan (wake_all ?ts ! i) = 0" using nscan_zero [of "wake_all ?ts"] by simp
  with sum_list_update [OF len, of nscan Exited] zw
  have sum: "sum_list (map nscan (threads s')) = 0" by (simp add: pop_last(6))
  have mem: "t = Popping \<or> t = Exited" if "t \<in> set (threads s')" for t
  proof -
    from that have "t = Exited \<or> t \<in> set (wake_all ?ts)"
      using mem_update [of t "wake_all ?ts" i Exited] by (simp add: pop_last(6))
    moreover have "t = Popping \<or> t = Exited" if t: "t \<in> set (wake_all ?ts)"
    proof -
      from t zw have "nscan t = 0" using nscan_zero [of "wake_all ?ts"] by simp
      moreover from t have "t \<noteq> Sleeping" using wake_all_no_sleeper [of ?ts] by auto
      ultimately show ?thesis by (cases t) auto
    qed
    ultimately show ?thesis by blast
  qed
  then have "Sleeping \<notin> set (threads s')" by auto
  with sum mem pop_last show ?thesis by (auto simp: inv_q_def)
next
  case pop_wait
  from assms(2) have "active_workers s = int (sum_list (map nscan (threads s)))"
    unfolding inv_q_def by (rule conjunct1)
  with pop_wait(5) have "0 < sum_list (map nscan (threads s))" by linarith
  then show ?thesis
    by (intro inv_q_update [OF assms(2) pop_wait(1), of Sleeping])
       (use pop_wait in simp_all)
next
  case (finish dir)
  let ?ts = "threads s"
  have ns: "\<not> stop s" using assms(2) finish(1,2) by (rule inv_q_scanning_not_stop)
  have len: "i < length (wake_all ?ts)" using finish(1) by (simp add: wake_all_def)
  have wi: "wake_all ?ts ! i = Scanning dir []"
    using finish(1,2) by (simp add: wake_all_def)
  have "sum_list (map nscan (threads s')) + 1 = sum_list (map nscan (wake_all ?ts))"
    using sum_list_update [OF len, of nscan Popping] wi by (simp add: finish(3))
  then have sum: "sum_list (map nscan (threads s')) + 1 = sum_list (map nscan ?ts)"
    using woken_nscan [OF woken_wake_all, of ?ts] by simp
  have ne: "Exited \<notin> set ?ts" using assms(2) ns by (auto simp: inv_q_def)
  have "Exited \<notin> set (wake_all ?ts)"
    using ne woken_mem [OF woken_wake_all, of Exited ?ts] by auto
  then have e: "Exited \<notin> set (threads s')"
    using mem_update [of Exited "wake_all ?ts" i Popping] by (auto simp: finish(3))
  have sl: "Sleeping \<notin> set (threads s')"
    using mem_update [of Sleeping "wake_all ?ts" i Popping] wake_all_no_sleeper [of ?ts]
    by (auto simp: finish(3))
  have "active_workers s' = int (sum_list (map nscan (threads s')))"
    using assms(2) sum by (simp add: inv_q_def finish(3))
  with e sl ns show ?thesis by (simp add: inv_q_def finish(3))
next
  case (skip dir fd fds)
  have ns: "\<not> stop s" using assms(2) skip(1,2) by (rule inv_q_scanning_not_stop)
  show ?thesis
    by (rule inv_q_update [OF assms(2) skip(1), of "Scanning dir fds"])
       (use skip ns in simp_all)
next
  case (push_fail dir fd fds full)
  have ns: "\<not> stop s" using assms(2) push_fail(1,2) by (rule inv_q_scanning_not_stop)
  show ?thesis
    by (rule inv_q_update [OF assms(2) push_fail(1), of "Scanning dir fds"])
       (use push_fail ns in simp_all)
next
  case (push dir fd fds full ts)
  let ?ts1 = "(threads s)[i := Scanning dir fds]"
  have ns: "\<not> stop s" using assms(2) push(1,2) by (rule inv_q_scanning_not_stop)
  have s1: "sum_list (map nscan ?ts1) = sum_list (map nscan (threads s))"
    using sum_list_update [OF push(1), of nscan "Scanning dir fds"] push(2) by simp
  have sum: "sum_list (map nscan ts) = sum_list (map nscan (threads s))"
    using woken_nscan [OF push(6)] s1 by simp
  have pos: "0 < sum_list (map nscan (threads s))"
    using push(1,2) by (rule scanning_positive)
  have ne: "Exited \<notin> set (threads s)" using assms(2) ns by (auto simp: inv_q_def)
  have "Exited \<notin> set ?ts1" using ne mem_update [of Exited "threads s" i] by auto
  then have e: "Exited \<notin> set ts" using woken_mem [OF push(6), of Exited] by auto
  from assms(2) sum pos e ns show ?thesis by (simp add: inv_q_def push(7))
next
  case (file_hit dir fd fds full)
  have ns: "\<not> stop s" using assms(2) file_hit(1,2) by (rule inv_q_scanning_not_stop)
  show ?thesis
    by (rule inv_q_update [OF assms(2) file_hit(1), of "Scanning dir fds"])
       (use file_hit ns in simp_all)
next
  case (file_miss dir fd fds full)
  have ns: "\<not> stop s" using assms(2) file_miss(1,2) by (rule inv_q_scanning_not_stop)
  show ?thesis
    by (rule inv_q_update [OF assms(2) file_miss(1), of "Scanning dir fds"])
       (use file_miss ns in simp_all)
next
  case spurious
  show ?thesis
    by (rule inv_q_update [OF assms(2) spurious(1), of Popping])
       (use spurious in simp_all)
qed

lemma nscan_replicate: "sum_list (map nscan (replicate k Popping)) = 0"
  by (induction k) auto

lemma inv_q_init: "inv_q (init_sys k q)"
  by (simp add: inv_q_def init_sys_def wq_init_def nscan_replicate)

lemma inv_q_run: "run w sched s = Some s' \<Longrightarrow> inv_q s \<Longrightarrow> inv_q s'"
proof (induction sched arbitrary: s)
  case Nil
  then show ?case by simp
next
  case (Cons ic sched)
  obtain i c where ic: "ic = (i, c)" by (cases ic)
  from Cons.prems(1) obtain s1 where s1: "thread_step w i c s = Some s1" "run w sched s1 = Some s'"
    by (auto simp: ic split: option.splits)
  from s1(1) Cons.prems(2) have "inv_q s1" by (rule inv_q_step)
  with s1(2) show ?case by (rule Cons.IH)
qed

lemma nscan_pos:
  "0 < sum_list (map nscan ts) \<Longrightarrow> \<exists>u\<in>set ts. u = Popping \<or> nscan u = 1"
proof (induction ts)
  case Nil
  then show ?case by simp
next
  case (Cons t ts)
  then show ?case by (cases t) auto
qed

lemma step_popping:
  "i < length (threads s) \<Longrightarrow> threads s ! i = Popping \<Longrightarrow> thread_step w i c s \<noteq> None"
  by (simp add: thread_step_def wq_pop_def split: list.splits)

lemma wake_one_possible: "\<exists>j. wake_one j ts \<noteq> None"
proof (cases "Sleeping \<in> set ts")
  case True
  then obtain j where "j < length ts" "ts ! j = Sleeping" by (auto simp: in_set_conv_nth)
  then have "wake_one j ts \<noteq> None" by (simp add: wake_one_def)
  then show ?thesis ..
next
  case False
  then show ?thesis by (simp add: wake_one_def)
qed

lemma step_scanning:
  assumes "i < length (threads s)" "threads s ! i = Scanning dir fds"
  shows "\<exists>j. thread_step w i (choice0 j) s \<noteq> None"
proof (cases fds)
  case Nil
  with assms show ?thesis by (simp add: thread_step_def)
next
  case (Cons fd rest)
  obtain j where j: "wake_one j ((threads s)[i := Scanning dir rest]) \<noteq> None"
    using wake_one_possible by blast
  have "thread_step w i (choice0 j) s \<noteq> None"
    using assms Cons j
    by (auto simp: thread_step_def Let_def choice0_def wq_push_owned_def set_thread_def
        split: action.splits option.splits)
  then show ?thesis ..
qed

lemma progress:
  assumes "inv_q s" "\<not> all_exited s"
  shows "\<exists>i j. thread_step w i (choice0 j) s \<noteq> None"
proof -
  from assms(2) obtain t where t: "t \<in> set (threads s)" "t \<noteq> Exited"
    by (auto simp: all_exited_def list_all_iff)
  have "\<exists>u\<in>set (threads s). u = Popping \<or> nscan u = 1"
  proof (cases t)
    case Popping
    with t show ?thesis by auto
  next
    case Sleeping
    with t assms(1) have "0 < sum_list (map nscan (threads s))" by (simp add: inv_q_def)
    then show ?thesis by (rule nscan_pos)
  next
    case (Scanning dir fds)
    with t have "t \<in> set (threads s)" "nscan t = 1" by simp_all
    then show ?thesis by blast
  next
    case Exited
    with t show ?thesis by simp
  qed
  then obtain u i where u: "i < length (threads s)" "threads s ! i = u" "u = Popping \<or> nscan u = 1"
    by (auto simp: in_set_conv_nth)
  show ?thesis
  proof (cases u)
    case Popping
    with u have "thread_step w i (choice0 0) s \<noteq> None" by (intro step_popping) simp_all
    then show ?thesis by blast
  next
    case (Scanning dir fds)
    with u step_scanning [of i s dir fds w] show ?thesis by auto
  next
    case Sleeping
    with u show ?thesis by simp
  next
    case Exited
    with u show ?thesis by simp
  qed
qed

text \<open>
  Claim C2. One evaluation of the loop body of \<^verbatim>\<open>wq_pop\<close> under the mutex is
  a four-way case split: with the stop flag set it returns the stop signal and
  changes nothing; else with a non-empty queue it removes and returns the head
  and increments the count of active workers in the same step; else with no
  active worker it sets the stop flag, wakes every sleeping thread and returns
  the stop signal; else it blocks. The calling worker returns, scans or sleeps
  accordingly; a sleeping worker can only move by waking up, by a wake-up call
  or spuriously, which puts it back at the top of the loop, where its next
  step is again this case split.
\<close>

theorem wq_pop_four_cases:
  "(stop s \<longrightarrow> wq_pop s = (PopStop, s))
   \<and> (\<not> stop s \<and> queue s = dir # rest \<longrightarrow>
        wq_pop s = (PopDir dir, s\<lparr>queue := rest, active_workers := active_workers s + 1\<rparr>))
   \<and> (\<not> stop s \<and> queue s = [] \<and> active_workers s = 0 \<longrightarrow>
        wq_pop s = (PopStop, s\<lparr>stop := True, threads := wake_all (threads s)\<rparr>)
        \<and> Sleeping \<notin> set (wake_all (threads s)))
   \<and> (\<not> stop s \<and> queue s = [] \<and> active_workers s \<noteq> 0 \<longrightarrow> wq_pop s = (PopWait, s))
   \<and> (i < length (threads s) \<and> threads s ! i = Popping \<longrightarrow>
        thread_step w i c s =
          Some (case wq_pop s of
                  (PopStop, s') \<Rightarrow> set_thread i Exited s'
                | (PopWait, s') \<Rightarrow> set_thread i Sleeping s'
                | (PopDir d, s') \<Rightarrow>
                    set_thread i (Scanning d (find_files w d))
                      (s'\<lparr>dirs_scanned := dirs_scanned s' + 1\<rparr>)))
   \<and> (i < length (threads s) \<and> threads s ! i = Sleeping \<longrightarrow>
        thread_step w i c s =
          (if c_spurious c then Some (s\<lparr>threads := (threads s)[i := Popping]\<rparr>) else None)
        \<and> wake_all (threads s) ! i = Popping)"
proof -
  have 1: "stop s \<longrightarrow> wq_pop s = (PopStop, s)" by (simp add: wq_pop_def)
  have 2: "\<not> stop s \<and> queue s = dir # rest \<longrightarrow>
        wq_pop s = (PopDir dir, s\<lparr>queue := rest, active_workers := active_workers s + 1\<rparr>)"
    by (simp add: wq_pop_def)
  have 3: "\<not> stop s \<and> queue s = [] \<and> active_workers s = 0 \<longrightarrow>
        wq_pop s = (PopStop, s\<lparr>stop := True, threads := wake_all (threads s)\<rparr>)
        \<and> Sleeping \<notin> set (wake_all (threads s))"
    by (simp add: wq_pop_def wake_all_no_sleeper)
  have 4: "\<not> stop s \<and> queue s = [] \<and> active_workers s \<noteq> 0 \<longrightarrow> wq_pop s = (PopWait, s)"
    by (simp add: wq_pop_def)
  have 5: "i < length (threads s) \<and> threads s ! i = Popping \<longrightarrow>
        thread_step w i c s =
          Some (case wq_pop s of
                  (PopStop, s') \<Rightarrow> set_thread i Exited s'
                | (PopWait, s') \<Rightarrow> set_thread i Sleeping s'
                | (PopDir d, s') \<Rightarrow>
                    set_thread i (Scanning d (find_files w d))
                      (s'\<lparr>dirs_scanned := dirs_scanned s' + 1\<rparr>))"
    by (simp add: thread_step_def split: prod.splits pop_result.splits)
  have 6: "i < length (threads s) \<and> threads s ! i = Sleeping \<longrightarrow>
        thread_step w i c s =
          (if c_spurious c then Some (s\<lparr>threads := (threads s)[i := Popping]\<rparr>) else None)
        \<and> wake_all (threads s) ! i = Popping"
    by (simp add: thread_step_def wake_all_def set_thread_def)
  from 1 2 3 4 5 6 show ?thesis by blast
qed


lemma quiescent_threads:
  assumes "inv_q s" "active_workers s = 0"
  shows "\<forall>t\<in>set (threads s). t = Popping \<or> t = Exited"
proof
  fix t assume t: "t \<in> set (threads s)"
  from assms have z: "sum_list (map nscan (threads s)) = 0" by (simp add: inv_q_def)
  then have n: "\<forall>t\<in>set (threads s). nscan t = 0" using nscan_zero [of "threads s"] by simp
  have "Sleeping \<notin> set (threads s)" using assms(1) z by (auto simp: inv_q_def)
  with t have "t \<noteq> Sleeping" by blast
  moreover from t n have "nscan t = 0" by blast
  ultimately show "t = Popping \<or> t = Exited" by (cases t) simp_all
qed

lemma quiescent_step:
  assumes "inv_q s" "queue s = []" "active_workers s = 0" "thread_step w i c s = Some s'"
  shows "queue s' = [] \<and> active_workers s' = 0 \<and> stop s' \<and>
     sum_list (map npop (threads s')) + 1 = sum_list (map npop (threads s)) \<and>
     out_lines s' = out_lines s \<and> dirs_scanned s' = dirs_scanned s"
proof -
  have pe: "\<forall>t\<in>set (threads s). t = Popping \<or> t = Exited"
    using assms(1,3) by (rule quiescent_threads)
  have ns: "Sleeping \<notin> set (threads s)" using pe by auto
  have nsc: "threads s ! i \<noteq> Scanning dir fds" if "i < length (threads s)" for dir fds
  proof -
    have "threads s ! i \<in> set (threads s)" using that by simp
    with pe have "threads s ! i = Popping \<or> threads s ! i = Exited" by blast
    then show ?thesis by auto
  qed
  from assms(4) show ?thesis
  proof (cases rule: thread_step_cases)
    case pop_stop
    have "sum_list (map npop ((threads s)[i := Exited])) + 1 = sum_list (map npop (threads s))"
      using pop_stop(1) by (rule sum_list_update_less) (simp add: pop_stop(2))
    with pop_stop assms(2,3) show ?thesis by simp
  next
    case (pop_dir dir rest)
    with assms(2) show ?thesis by simp
  next
    case pop_last
    have id: "wake_all (threads s) = threads s" using ns by (rule wake_all_id)
    have "sum_list (map npop ((threads s)[i := Exited])) + 1 = sum_list (map npop (threads s))"
      using pop_last(1) by (rule sum_list_update_less) (simp add: pop_last(2))
    with pop_last assms(2,3) id show ?thesis by simp
  next
    case pop_wait
    with assms(3) show ?thesis by simp
  next
    case (finish dir)
    with nsc show ?thesis by blast
  next
    case (skip dir fd fds)
    with nsc show ?thesis by blast
  next
    case (push_fail dir fd fds full)
    with nsc show ?thesis by blast
  next
    case (push dir fd fds full ts)
    with nsc show ?thesis by blast
  next
    case (file_hit dir fd fds full)
    with nsc show ?thesis by blast
  next
    case (file_miss dir fd fds full)
    with nsc show ?thesis by blast
  next
    case spurious
    with ns show ?thesis by (metis nth_mem)
  qed
qed

lemma quiescent_run:
  "run w sched s = Some s' \<Longrightarrow> inv_q s \<Longrightarrow> queue s = [] \<Longrightarrow> active_workers s = 0 \<Longrightarrow>
   length sched + sum_list (map npop (threads s')) = sum_list (map npop (threads s))
   \<and> (sched \<noteq> [] \<longrightarrow> stop s')
   \<and> out_lines s' = out_lines s \<and> dirs_scanned s' = dirs_scanned s"
proof (induction sched arbitrary: s)
  case Nil
  then show ?case by simp
next
  case (Cons ic sched)
  obtain i c where ic: "ic = (i, c)" by (cases ic)
  from Cons.prems(1) obtain s1 where s1: "thread_step w i c s = Some s1" "run w sched s1 = Some s'"
    by (auto simp: ic split: option.splits)
  have q1: "inv_q s1" using s1(1) Cons.prems(2) by (rule inv_q_step)
  note st = quiescent_step [OF Cons.prems(2,3,4) s1(1)]
  from st have a: "queue s1 = []" "active_workers s1 = 0" "stop s1"
    "sum_list (map npop (threads s1)) + 1 = sum_list (map npop (threads s))"
    "out_lines s1 = out_lines s" "dirs_scanned s1 = dirs_scanned s" by blast+
  note ih = Cons.IH [OF s1(2) q1 a(1,2)]
  have "stop s'"
  proof (cases sched)
    case Nil
    with s1(2) a(3) show ?thesis by simp
  next
    case (Cons x xs)
    with ih show ?thesis by simp
  qed
  with ih a(4,5,6) show ?case by simp
qed






section \<open>Properties of the traversal\<close>

lemma real_dir_finite:
  "real_dir lim fs root dir \<Longrightarrow> finite_below lim fs n root \<Longrightarrow> finite_below lim fs n dir"
proof (induction rule: real_dir.induct)
  case real_root
  then show ?case .
next
  case (real_sub dir sub)
  from real_sub.IH [OF real_sub.prems] real_sub.hyps(2) show ?case
    by (rule finite_below_subdirs)
qed

lemma woken_all:
  assumes "woken ts ts'" "\<forall>t\<in>set ts. P t" "P Popping"
  shows "\<forall>t\<in>set ts'. P t"
proof
  fix t assume "t \<in> set ts'"
  then obtain k where k: "k < length ts'" "ts' ! k = t" by (auto simp: in_set_conv_nth)
  with assms(1) have "k < length ts" "t = ts ! k \<or> t = Popping" by (auto simp: woken_def)
  with assms(2,3) show "P t" by auto
qed

lemma update_all:
  "\<forall>t\<in>set ts. P t \<Longrightarrow> P x \<Longrightarrow> \<forall>t\<in>set (ts[i := x]). P t"
  using mem_update by fast

lemma pushes_Cons_subset: "set (pushes c dir fds) \<subseteq> set (pushes c dir (fd # fds))"
  by (auto split: action.splits)

lemma dirs_ok_next:
  "dirs_ok w root (Scanning dir (fd # fds)) \<Longrightarrow> dirs_ok w root (Scanning dir fds)"
  using pushes_Cons_subset [of "w_ctx w" dir fds fd] by auto

lemma inv_dirs_step:
  assumes "thread_step w i c s = Some s'" "inv_dirs w root s"
  shows "inv_dirs w root s'"
proof -
  from assms(2) have q: "\<forall>dir\<in>set (queue s). real_dir (Some buf_cap) (w_fs w) root dir"
    and t: "\<forall>t\<in>set (threads s). dirs_ok w root t"
    by (simp_all add: inv_dirs_def)
  have ti: "dirs_ok w root (threads s ! i)" if "i < length (threads s)"
    using t that by simp
  have wk: "\<forall>t\<in>set (wake_all (threads s)). dirs_ok w root t"
    using woken_wake_all t by (rule woken_all) simp
  from assms(1) show ?thesis
  proof (cases rule: thread_step_cases)
    case pop_stop
    with q update_all [OF t, of Exited i] show ?thesis by (simp add: inv_dirs_def)
  next
    case (pop_dir dir rest)
    from q pop_dir(4) have "real_dir (Some buf_cap) (w_fs w) root dir" by simp
    then have "dirs_ok w root (Scanning dir (find_files w dir))"
      by (simp add: pushes_find_files)
    from update_all [OF t this, of i] q pop_dir show ?thesis by (simp add: inv_dirs_def)
  next
    case pop_last
    with q update_all [OF wk, of Exited i] show ?thesis by (simp add: inv_dirs_def)
  next
    case pop_wait
    with q update_all [OF t, of Sleeping i] show ?thesis by (simp add: inv_dirs_def)
  next
    case (finish dir)
    with q update_all [OF wk, of Popping i] show ?thesis by (simp add: inv_dirs_def)
  next
    case (skip dir fd fds)
    from ti [OF skip(1)] skip(2) have "dirs_ok w root (Scanning dir (fd # fds))" by simp
    then have "dirs_ok w root (Scanning dir fds)" by (rule dirs_ok_next)
    from update_all [OF t this, of i] q skip show ?thesis by (simp add: inv_dirs_def)
  next
    case (push_fail dir fd fds full)
    from ti [OF push_fail(1)] push_fail(2) have "dirs_ok w root (Scanning dir (fd # fds))" by simp
    then have "dirs_ok w root (Scanning dir fds)" by (rule dirs_ok_next)
    from update_all [OF t this, of i] q push_fail show ?thesis by (simp add: inv_dirs_def)
  next
    case (push dir fd fds full ts)
    from ti [OF push(1)] push(2) have ok: "dirs_ok w root (Scanning dir (fd # fds))" by simp
    then have nx: "dirs_ok w root (Scanning dir fds)" by (rule dirs_ok_next)
    have a1: "\<forall>t\<in>set ((threads s)[i := Scanning dir fds]). dirs_ok w root t"
      using t nx by (rule update_all)
    have a2: "\<forall>t\<in>set ts. dirs_ok w root t"
      using push(6) a1 by (rule woken_all) simp
    have mem: "full \<in> set (pushes (w_ctx w) dir (fd # fds))" using push(3) by simp
    from ok have rd: "real_dir (Some buf_cap) (w_fs w) root dir"
      and sub: "set (pushes (w_ctx w) dir (fd # fds)) \<subseteq>
                set (real_subdirs (Some buf_cap) (w_fs w) dir)"
      unfolding dirs_ok.simps by blast+
    from sub mem have "full \<in> set (real_subdirs (Some buf_cap) (w_fs w) dir)" by blast
    with rd have "real_dir (Some buf_cap) (w_fs w) root full" by (rule real_sub)
    with a2 q show ?thesis unfolding inv_dirs_def push(7) by simp
  next
    case (file_hit dir fd fds full)
    from ti [OF file_hit(1)] file_hit(2) have "dirs_ok w root (Scanning dir (fd # fds))" by simp
    then have "dirs_ok w root (Scanning dir fds)" by (rule dirs_ok_next)
    from update_all [OF t this, of i] q file_hit show ?thesis by (simp add: inv_dirs_def)
  next
    case (file_miss dir fd fds full)
    from ti [OF file_miss(1)] file_miss(2) have "dirs_ok w root (Scanning dir (fd # fds))" by simp
    then have "dirs_ok w root (Scanning dir fds)" by (rule dirs_ok_next)
    from update_all [OF t this, of i] q file_miss show ?thesis by (simp add: inv_dirs_def)
  next
    case spurious
    with q update_all [OF t, of Popping i] show ?thesis by (simp add: inv_dirs_def)
  qed
qed

lemma inv_dirs_init: "inv_dirs w root (init_sys k [root])"
  by (simp add: inv_dirs_def init_sys_def wq_init_def real_root)

lemma inv_dirs_run: "run w sched s = Some s' \<Longrightarrow> inv_dirs w root s \<Longrightarrow> inv_dirs w root s'"
proof (induction sched arbitrary: s)
  case Nil
  then show ?case by simp
next
  case (Cons ic sched)
  obtain i c where ic: "ic = (i, c)" by (cases ic)
  from Cons.prems(1) obtain s1 where s1: "thread_step w i c s = Some s1" "run w sched s1 = Some s'"
    by (auto simp: ic split: option.splits)
  from s1(1) Cons.prems(2) have "inv_dirs w root s1" by (rule inv_dirs_step)
  with s1(2) show ?case by (rule Cons.IH)
qed

lemma woken_pend:
  "woken ts ts' \<Longrightarrow> sum_list (map (pend_thread w n) ts') = sum_list (map (pend_thread w n) ts)"
  using woken_map [of ts ts' "pend_thread w n"] by simp

lemma wake_all_nth:
  "i < length ts \<Longrightarrow> ts ! i \<noteq> Sleeping \<Longrightarrow> wake_all ts ! i = ts ! i"
  by (simp add: wake_all_def)

lemma wake_all_length: "length (wake_all ts) = length ts"
  by (simp add: wake_all_def)

lemma accounting_step:
  assumes st: "thread_step w i c s = Some s'"
    and nf: "\<not> c_copy_fail c" "\<not> c_node_fail c"
    and dirs: "inv_dirs w root s"
    and fin: "finite_below (Some buf_cap) (w_fs w) n root"
  shows "mset (out_lines s') + pending w n s' = mset (out_lines s) + pending w n s"
proof -
  let ?P = "pend_thread w n"
  let ?S = "\<lambda>ts. sum_list (map ?P ts)"
  let ?T = "\<lambda>ds. mset (concat (map (tree_list (Some buf_cap) w n) ds))"
  let ?ts = "threads s"
  have wk: "?S (wake_all ?ts) = ?S ?ts" using woken_wake_all by (rule woken_pend)
  from st show ?thesis
  proof (cases rule: thread_step_cases)
    case pop_stop
    have "?S (?ts[i := Exited]) = ?S ?ts + {#}"
      using pop_stop(1) by (rule sum_list_update_more) (simp add: pop_stop(2))
    with pop_stop show ?thesis by (simp add: pending_def)
  next
    case (pop_dir dir rest)
    from dirs pop_dir(4) have "real_dir (Some buf_cap) (w_fs w) root dir"
      by (simp add: inv_dirs_def)
    then have "finite_below (Some buf_cap) (w_fs w) n dir" using fin by (rule real_dir_finite)
    then have unf: "mset (tree_list (Some buf_cap) w n dir) =
        ?P (Scanning dir (find_files w dir))"
      by (subst tree_list_unfold) (simp_all add: prints_find_files pushes_find_files)
    have "?S (?ts[i := Scanning dir (find_files w dir)]) =
          ?S ?ts + mset (tree_list (Some buf_cap) w n dir)"
      using pop_dir(1) by (rule sum_list_update_more) (simp add: pop_dir(2) unf)
    with pop_dir show ?thesis by (simp add: pending_def ac_simps)
  next
    case pop_last
    have "?S ((wake_all ?ts)[i := Exited]) = ?S (wake_all ?ts) + {#}"
      by (rule sum_list_update_more)
         (use pop_last(1,2) in \<open>simp_all add: wake_all_length wake_all_nth\<close>)
    with pop_last wk show ?thesis by (simp add: pending_def)
  next
    case pop_wait
    have "?S (?ts[i := Sleeping]) = ?S ?ts + {#}"
      using pop_wait(1) by (rule sum_list_update_more) (simp add: pop_wait(2))
    with pop_wait show ?thesis by (simp add: pending_def)
  next
    case (finish dir)
    have "?S ((wake_all ?ts)[i := Popping]) = ?S (wake_all ?ts) + {#}"
      by (rule sum_list_update_more)
         (use finish(1,2) in \<open>simp_all add: wake_all_length wake_all_nth\<close>)
    with finish wk show ?thesis by (simp add: pending_def)
  next
    case (skip dir fd fds)
    have "?S (?ts[i := Scanning dir fds]) = ?S ?ts + {#}"
      using skip(1) by (rule sum_list_update_more) (simp add: skip(2,3))
    with skip show ?thesis by (simp add: pending_def)
  next
    case (push_fail dir fd fds full)
    with nf show ?thesis by simp
  next
    case (push dir fd fds full ts)
    have "?S (?ts[i := Scanning dir fds]) + mset (tree_list (Some buf_cap) w n full) = ?S ?ts"
      using push(1) by (rule sum_list_update_less) (simp add: push(2,3) ac_simps)
    moreover have "?S ts = ?S (?ts[i := Scanning dir fds])" using push(6) by (rule woken_pend)
    ultimately have "?S ts + mset (tree_list (Some buf_cap) w n full) = ?S ?ts" by simp
    then show ?thesis unfolding push(7) pending_def by (simp add: ac_simps)
  next
    case (file_hit dir fd fds full)
    have "?S (?ts[i := Scanning dir fds]) + {#full#} = ?S ?ts"
      using file_hit(1) by (rule sum_list_update_less) (simp add: file_hit(2,3))
    then show ?thesis unfolding file_hit(4) pending_def by (simp add: ac_simps)
  next
    case (file_miss dir fd fds full)
    have "?S (?ts[i := Scanning dir fds]) = ?S ?ts + {#}"
      using file_miss(1) by (rule sum_list_update_more) (simp add: file_miss(2,3))
    with file_miss show ?thesis by (simp add: pending_def)
  next
    case spurious
    have "?S (?ts[i := Popping]) = ?S ?ts + {#}"
      using spurious(1) by (rule sum_list_update_more) (simp add: spurious(2))
    with spurious show ?thesis by (simp add: pending_def)
  qed
qed

lemma accounting_run:
  assumes fin: "finite_below (Some buf_cap) (w_fs w) n root"
  shows "run w sched s = Some s' \<Longrightarrow> no_alloc_failure sched \<Longrightarrow> inv_dirs w root s \<Longrightarrow>
    mset (out_lines s') + pending w n s' = mset (out_lines s) + pending w n s"
proof (induction sched arbitrary: s)
  case Nil
  then show ?case by simp
next
  case (Cons ic sched)
  obtain i c where ic: "ic = (i, c)" by (cases ic)
  from Cons.prems(1) obtain s1 where s1: "thread_step w i c s = Some s1" "run w sched s1 = Some s'"
    by (auto simp: ic split: option.splits)
  from Cons.prems(2) have nf: "\<not> c_copy_fail c" "\<not> c_node_fail c" "no_alloc_failure sched"
    by (simp_all add: no_alloc_failure_def ic)
  have d1: "inv_dirs w root s1" using s1(1) Cons.prems(3) by (rule inv_dirs_step)
  have "mset (out_lines s') + pending w n s' = mset (out_lines s1) + pending w n s1"
    using s1(2) nf(3) d1 by (rule Cons.IH)
  also have "\<dots> = mset (out_lines s) + pending w n s"
    using s1(1) nf(1,2) Cons.prems(3) fin by (rule accounting_step)
  finally show ?case .
qed

lemma sum_list_all_empty:
  "\<forall>x\<in>set xs. f x = ({#} :: 'a multiset) \<Longrightarrow> sum_list (map f xs) = {#}"
  by (induction xs) auto

lemma pending_init:
  "pending w n (init_sys k [root]) = mset (tree_list (Some buf_cap) w n root)"
proof -
  have "sum_list (map (pend_thread w n) (replicate k Popping)) = {#}"
    by (rule sum_list_all_empty) simp
  then show ?thesis by (simp only: pending_def init_sys_def wq_init_def) simp
qed

lemma length_step: "thread_step w i c s = Some s' \<Longrightarrow> length (threads s') = length (threads s)"
  by (cases rule: thread_step_cases, assumption)
     (simp_all add: wake_all_length woken_length)

lemma length_run: "run w sched s = Some s' \<Longrightarrow> length (threads s') = length (threads s)"
proof (induction sched arbitrary: s)
  case Nil
  then show ?case by simp
next
  case (Cons ic sched)
  obtain i c where ic: "ic = (i, c)" by (cases ic)
  from Cons.prems(1) obtain s1 where s1: "thread_step w i c s = Some s1" "run w sched s1 = Some s'"
    by (auto simp: ic split: option.splits)
  from Cons.IH [OF s1(2)] length_step [OF s1(1)] show ?case by simp
qed

lemma pending_final:
  assumes "inv_q s" "all_exited s" "threads s \<noteq> []"
  shows "pending w n s = {#}"
proof -
  from assms(2) have ex: "\<forall>t\<in>set (threads s). t = Exited"
    by (simp add: all_exited_def list_all_iff)
  with assms(3) have "Exited \<in> set (threads s)" by (cases "threads s") auto
  with assms(1) have "stop s" by (simp add: inv_q_def)
  with assms(1) have q: "queue s = []" by (simp add: inv_q_def)
  have "sum_list (map (pend_thread w n) (threads s)) = {#}"
    by (rule sum_list_all_empty) (use ex in auto)
  with q show ?thesis by (simp add: pending_def)
qed

lemma walk_correct:
  assumes "finite_below (Some buf_cap) (w_fs w) n root"
    and "run w sched (init_sys k [root]) = Some s" "no_alloc_failure sched"
    and "all_exited s" "0 < k"
  shows "mset (out_lines s) = mset (tree_list (Some buf_cap) w n root)"
proof -
  have iq: "inv_q s" using assms(2) inv_q_init by (rule inv_q_run)
  have len: "length (threads s) = k"
    using length_run [OF assms(2)] by (simp add: init_sys_def wq_init_def)
  have "mset (out_lines s) + pending w n s =
        mset (out_lines (init_sys k [root])) + pending w n (init_sys k [root])"
    using assms(1,2,3) inv_dirs_init by (rule accounting_run)
  moreover have "pending w n s = {#}"
    using iq assms(4) len assms(5) by (intro pending_final) auto
  moreover have "out_lines (init_sys k [root]) = []" by (simp add: init_sys_def wq_init_def)
  ultimately show ?thesis by (simp add: pending_init)
qed

lemma npop_le: "sum_list (map npop ts) \<le> length ts"
proof (induction ts)
  case Nil
  show ?case by simp
next
  case (Cons t ts)
  then show ?case by (cases t) auto
qed

lemma woken_work:
  "woken ts ts' \<Longrightarrow> sum_list (map (work_thread w n) ts') = sum_list (map (work_thread w n) ts)"
  using woken_map [of ts ts' "work_thread w n"] by simp

lemma steps_left_work:
  assumes "work w n s' < work w n s" "length (threads s') = length (threads s)"
  shows "steps_left w n s' < steps_left w n s"
proof -
  let ?k = "length (threads s)"
  have "sum_list (map npop (threads s')) \<le> ?k" using npop_le [of "threads s'"] assms(2) by simp
  then have "steps_left w n s' < (work w n s' + 1) * (?k + 1)"
    by (simp add: steps_left_def assms(2))
  also have "\<dots> \<le> work w n s * (?k + 1)"
    using assms(1) by (intro mult_le_mono1) simp
  also have "\<dots> \<le> steps_left w n s" by (simp add: steps_left_def)
  finally show ?thesis .
qed

lemma steps_left_pop:
  assumes "work w n s' = work w n s" "length (threads s') = length (threads s)"
    "sum_list (map npop (threads s')) < sum_list (map npop (threads s))"
  shows "steps_left w n s' < steps_left w n s"
  using assms by (simp add: steps_left_def)

lemma steps_left_step:
  assumes st: "thread_step w i c s = Some s'"
    and iq: "inv_q s"
    and dirs: "inv_dirs w root s"
    and fin: "finite_below (Some buf_cap) (w_fs w) n root"
  shows "steps_left w n s' < steps_left w n s + (if c_spurious c then 2 else 0)"
proof -
  let ?W = "work_thread w n"
  let ?S = "\<lambda>ts. sum_list (map ?W ts)"
  let ?N = "\<lambda>ts. sum_list (map npop ts)"
  let ?ts = "threads s"
  have len: "length (threads s') = length ?ts" using st by (rule length_step)
  have wk: "?S (wake_all ?ts) = ?S ?ts" using woken_wake_all by (rule woken_work)
  have less: ?thesis if "steps_left w n s' < steps_left w n s"
    using that by simp
  from st show ?thesis
  proof (cases rule: thread_step_cases)
    case pop_stop
    have "?S (?ts[i := Exited]) = ?S ?ts + 0"
      using pop_stop(1) by (rule sum_list_update_more) (simp add: pop_stop(2))
    moreover have "?N (?ts[i := Exited]) + 1 = ?N ?ts"
      using pop_stop(1) by (rule sum_list_update_less) (simp add: pop_stop(2))
    ultimately show ?thesis using pop_stop(4) len
      by (intro less steps_left_pop) (simp_all add: work_def)
  next
    case (pop_dir dir rest)
    from dirs pop_dir(4) have "real_dir (Some buf_cap) (w_fs w) root dir"
      by (simp add: inv_dirs_def)
    then have "finite_below (Some buf_cap) (w_fs w) n dir" using fin by (rule real_dir_finite)
    then have unf: "tree_steps w n dir = ?W (Scanning dir (find_files w dir)) + 1"
      by (subst tree_steps_unfold) (simp_all add: pushes_find_files)
    have "?S (?ts[i := Scanning dir (find_files w dir)]) =
          ?S ?ts + ?W (Scanning dir (find_files w dir))"
      using pop_dir(1) by (rule sum_list_update_more) (simp add: pop_dir(2))
    with unf pop_dir(4,5) have "work w n s' < work w n s" by (simp add: work_def)
    then show ?thesis using len by (intro less steps_left_work)
  next
    case pop_last
    from iq pop_last(5) have z: "sum_list (map nscan ?ts) = 0" by (simp add: inv_q_def)
    have "Sleeping \<notin> set ?ts"
    proof
      assume "Sleeping \<in> set ?ts"
      with iq have "0 < sum_list (map nscan ?ts)" unfolding inv_q_def by blast
      with z show False by linarith
    qed
    then have id: "wake_all ?ts = ?ts" by (rule wake_all_id)
    have "?S (?ts[i := Exited]) = ?S ?ts + 0"
      using pop_last(1) by (rule sum_list_update_more) (simp add: pop_last(2))
    moreover have "?N (?ts[i := Exited]) + 1 = ?N ?ts"
      using pop_last(1) by (rule sum_list_update_less) (simp add: pop_last(2))
    ultimately show ?thesis using pop_last(6) len id
      by (intro less steps_left_pop) (simp_all add: work_def)
  next
    case pop_wait
    have "?S (?ts[i := Sleeping]) = ?S ?ts + 0"
      using pop_wait(1) by (rule sum_list_update_more) (simp add: pop_wait(2))
    moreover have "?N (?ts[i := Sleeping]) + 1 = ?N ?ts"
      using pop_wait(1) by (rule sum_list_update_less) (simp add: pop_wait(2))
    ultimately show ?thesis using pop_wait(6) len
      by (intro less steps_left_pop) (simp_all add: work_def)
  next
    case (finish dir)
    have "?S ((wake_all ?ts)[i := Popping]) + 1 = ?S (wake_all ?ts)"
      by (rule sum_list_update_less)
         (use finish(1,2) in \<open>simp_all add: wake_all_length wake_all_nth\<close>)
    with wk finish(3) have "work w n s' < work w n s" by (simp add: work_def)
    then show ?thesis using len by (intro less steps_left_work)
  next
    case (skip dir fd fds)
    have "?S (?ts[i := Scanning dir fds]) + 1 = ?S ?ts"
      using skip(1) by (rule sum_list_update_less) (simp add: skip(2,3))
    with skip(4) have "work w n s' < work w n s" by (simp add: work_def)
    then show ?thesis using len by (intro less steps_left_work)
  next
    case (push_fail dir fd fds full)
    have "?S (?ts[i := Scanning dir fds]) + (1 + tree_steps w n full) = ?S ?ts"
      using push_fail(1) by (rule sum_list_update_less) (simp add: push_fail(2,3))
    with push_fail(5) have "work w n s' < work w n s" by (simp add: work_def)
    then show ?thesis using len by (intro less steps_left_work)
  next
    case (push dir fd fds full ts)
    have "?S (?ts[i := Scanning dir fds]) + (1 + tree_steps w n full) = ?S ?ts"
      using push(1) by (rule sum_list_update_less) (simp add: push(2,3))
    moreover have "?S ts = ?S (?ts[i := Scanning dir fds])" using push(6) by (rule woken_work)
    ultimately have "?S ts + (1 + tree_steps w n full) = ?S ?ts" by simp
    with push(7) have "work w n s' < work w n s" by (simp add: work_def)
    then show ?thesis using len by (intro less steps_left_work)
  next
    case (file_hit dir fd fds full)
    have "?S (?ts[i := Scanning dir fds]) + 1 = ?S ?ts"
      using file_hit(1) by (rule sum_list_update_less) (simp add: file_hit(2,3))
    with file_hit(4) have "work w n s' < work w n s" by (simp add: work_def)
    then show ?thesis using len by (intro less steps_left_work)
  next
    case (file_miss dir fd fds full)
    have "?S (?ts[i := Scanning dir fds]) + 1 = ?S ?ts"
      using file_miss(1) by (rule sum_list_update_less) (simp add: file_miss(2,3))
    with file_miss(4) have "work w n s' < work w n s" by (simp add: work_def)
    then show ?thesis using len by (intro less steps_left_work)
  next
    case spurious
    have "?S (?ts[i := Popping]) = ?S ?ts + 0"
      using spurious(1) by (rule sum_list_update_more) (simp add: spurious(2))
    moreover have "?N (?ts[i := Popping]) = ?N ?ts + 1"
      using spurious(1) by (rule sum_list_update_more) (simp add: spurious(2))
    ultimately have "steps_left w n s' = steps_left w n s + 1"
      using spurious(4) by (simp add: steps_left_def work_def)
    with spurious(3) show ?thesis by simp
  qed
qed

lemma run_bound:
  assumes fin: "finite_below (Some buf_cap) (w_fs w) n root"
  shows "run w sched s = Some s' \<Longrightarrow> inv_q s \<Longrightarrow> inv_dirs w root s \<Longrightarrow>
    length sched + steps_left w n s' \<le> steps_left w n s + 2 * spurious_count sched"
proof (induction sched arbitrary: s)
  case Nil
  then show ?case by (simp add: spurious_count_def)
next
  case (Cons ic sched)
  obtain i c where ic: "ic = (i, c)" by (cases ic)
  from Cons.prems(1) obtain s1 where s1: "thread_step w i c s = Some s1" "run w sched s1 = Some s'"
    by (auto simp: ic split: option.splits)
  have q1: "inv_q s1" using s1(1) Cons.prems(2) by (rule inv_q_step)
  have d1: "inv_dirs w root s1" using s1(1) Cons.prems(3) by (rule inv_dirs_step)
  have "length sched + steps_left w n s' \<le> steps_left w n s1 + 2 * spurious_count sched"
    using s1(2) q1 d1 by (rule Cons.IH)
  moreover have "steps_left w n s1 < steps_left w n s + (if c_spurious c then 2 else 0)"
    using s1(1) Cons.prems(2,3) fin by (rule steps_left_step)
  moreover have "spurious_count (ic # sched) =
      (if c_spurious c then 1 else 0) + spurious_count sched"
    by (simp add: spurious_count_def ic)
  ultimately show ?case by (simp split: if_splits)
qed

lemma can_finish:
  assumes fin: "finite_below (Some buf_cap) (w_fs w) n root"
  shows "inv_q s \<Longrightarrow> inv_dirs w root s \<Longrightarrow>
    \<exists>sched s'. no_alloc_failure sched \<and> run w sched s = Some s' \<and> all_exited s'"
proof (induction "steps_left w n s" arbitrary: s rule: less_induct)
  case less
  show ?case
  proof (cases "all_exited s")
    case True
    then have "no_alloc_failure [] \<and> run w [] s = Some s \<and> all_exited s"
      by (simp add: no_alloc_failure_def)
    then show ?thesis by blast
  next
    case False
    from progress [OF less.prems(1) False, of w]
    obtain i j s1 where s1: "thread_step w i (choice0 j) s = Some s1" by auto
    have q1: "inv_q s1" using s1 less.prems(1) by (rule inv_q_step)
    have d1: "inv_dirs w root s1" using s1 less.prems(2) by (rule inv_dirs_step)
    have "steps_left w n s1 < steps_left w n s"
      using steps_left_step [OF s1 less.prems fin] by (simp add: choice0_def)
    from less.hyps [OF this q1 d1]
    obtain sched s' where r: "no_alloc_failure sched" "run w sched s1 = Some s'" "all_exited s'"
      by blast
    have "no_alloc_failure ((i, choice0 j) # sched)"
      using r(1) by (simp add: no_alloc_failure_def choice0_def)
    moreover have "run w ((i, choice0 j) # sched) s = Some s'" using s1 r(2) by simp
    ultimately show ?thesis using r(3) by blast
  qed
qed

lemma steps_left_init:
  "steps_left w n (init_sys k [root]) = tree_steps w n root * (k + 1) + k"
  by (simp add: steps_left_def work_def init_sys_def wq_init_def sum_list_replicate)

section \<open>Properties of the process\<close>

lemma proc_step_returned: "p_returned p \<Longrightarrow> proc_step w ev p = None"
  by (simp add: proc_step_def)

lemma proc_run_returned: "p_returned p \<Longrightarrow> proc_run w evs p = Some p' \<Longrightarrow> evs = []"
  by (cases evs) (simp_all add: proc_step_returned)

lemma proc_step_work:
  "proc_step w (Work i c) p = Some p' \<Longrightarrow>
   thread_step w i c (p_sys p) = Some (p_sys p') \<and> \<not> p_returned p \<and> \<not> p_returned p'"
  by (auto simp: proc_step_def split: if_splits option.splits)

lemma proc_step_join:
  "proc_step w Join p = Some p' \<Longrightarrow>
   p_sys p' = p_sys p \<and> \<not> p_returned p \<and> p_returned p' \<and> wait_for_workers (p_sys p) \<noteq> WaitBlocked"
  by (auto simp: proc_step_def split: if_splits wait_result.splits)

lemma proc_run_sys:
  "proc_run w evs p = Some p' \<Longrightarrow> run w (worker_events evs) (p_sys p) = Some (p_sys p')"
proof (induction evs arbitrary: p)
  case Nil
  then show ?case by simp
next
  case (Cons ev evs)
  from Cons.prems obtain p1 where p1: "proc_step w ev p = Some p1" "proc_run w evs p1 = Some p'"
    by (auto split: option.splits)
  have r: "run w (worker_events evs) (p_sys p1) = Some (p_sys p')" using p1(2) by (rule Cons.IH)
  show ?case
  proof (cases ev)
    case (Work i c)
    with p1(1) have "thread_step w i c (p_sys p) = Some (p_sys p1)"
      using proc_step_work by blast
    with r Work show ?thesis by simp
  next
    case Join
    with p1(1) have "p_sys p1 = p_sys p" using proc_step_join by blast
    with r Join show ?thesis by simp
  qed
qed

lemma proc_run_joined:
  "proc_run w evs p = Some p' \<Longrightarrow> \<not> p_returned p \<Longrightarrow> p_returned p' \<Longrightarrow>
   wait_for_workers (p_sys p') \<noteq> WaitBlocked"
proof (induction evs arbitrary: p)
  case Nil
  then show ?case by simp
next
  case (Cons ev evs)
  from Cons.prems(1) obtain p1 where p1: "proc_step w ev p = Some p1" "proc_run w evs p1 = Some p'"
    by (auto split: option.splits)
  show ?case
  proof (cases ev)
    case (Work i c)
    with p1(1) have "\<not> p_returned p1" using proc_step_work by blast
    with p1(2) Cons.prems(3) show ?thesis by (intro Cons.IH)
  next
    case Join
    with p1(1) have j: "p_sys p1 = p_sys p" "p_returned p1" "wait_for_workers (p_sys p) \<noteq> WaitBlocked"
      using proc_step_join by blast+
    from j(2) p1(2) have "evs = []" by (rule proc_run_returned)
    with p1(2) have "p' = p1" by simp
    with j show ?thesis by simp
  qed
qed

lemma proc_run_length:
  "proc_run w evs p = Some p' \<Longrightarrow> length evs \<le> length (worker_events evs) + 1"
proof (induction evs arbitrary: p)
  case Nil
  then show ?case by simp
next
  case (Cons ev evs)
  from Cons.prems(1) obtain p1 where p1: "proc_step w ev p = Some p1" "proc_run w evs p1 = Some p'"
    by (auto split: option.splits)
  show ?case
  proof (cases ev)
    case (Work i c)
    with Cons.IH [OF p1(2)] show ?thesis by simp
  next
    case Join
    with p1(1) have "p_returned p1" using proc_step_join by blast
    from this p1(2) have "evs = []" by (rule proc_run_returned)
    with Join show ?thesis by simp
  qed
qed

lemma proc_run_work:
  "run w sched s = Some s' \<Longrightarrow>
   proc_run w (work_events sched) \<lparr>p_sys = s, p_returned = False\<rparr>
     = Some \<lparr>p_sys = s', p_returned = False\<rparr>"
proof (induction sched arbitrary: s)
  case Nil
  then show ?case by (simp add: work_events_def)
next
  case (Cons ic sched)
  obtain i c where ic: "ic = (i, c)" by (cases ic)
  from Cons.prems obtain s1 where s1: "thread_step w i c s = Some s1" "run w sched s1 = Some s'"
    by (auto simp: ic split: option.splits)
  have "proc_step w (Work i c) \<lparr>p_sys = s, p_returned = False\<rparr> = Some \<lparr>p_sys = s1, p_returned = False\<rparr>"
    using s1(1) by (simp add: proc_step_def)
  with Cons.IH [OF s1(2)] show ?case by (simp add: ic work_events_def)
qed

lemma worker_events_work: "worker_events (work_events sched @ evs) = sched @ worker_events evs"
  by (induction sched) (auto simp: work_events_def)

lemma quiet_work_events:
  "list_all quiet_event (work_events sched) = list_all (\<lambda>(i, c). quiet c) sched"
  by (induction sched) (auto simp: work_events_def)

lemma proc_run_append:
  "proc_run w (a @ b) p =
     (case proc_run w a p of None \<Rightarrow> None | Some p1 \<Rightarrow> proc_run w b p1)"
  by (induction a arbitrary: p) (auto split: option.splits)

lemma quiet_choice0: "quiet (choice0 j)"
  by (simp add: quiet_def choice0_def)

lemma can_finish_quiet:
  assumes fin: "finite_below (Some buf_cap) (w_fs w) n root"
  shows "inv_q s \<Longrightarrow> inv_dirs w root s \<Longrightarrow>
    \<exists>sched s'. list_all (\<lambda>(i, c). quiet c) sched \<and> run w sched s = Some s' \<and> all_exited s'"
proof (induction "steps_left w n s" arbitrary: s rule: less_induct)
  case less
  show ?case
  proof (cases "all_exited s")
    case True
    then have "list_all (\<lambda>(i, c). quiet c) [] \<and> run w [] s = Some s \<and> all_exited s"
      by simp
    then show ?thesis by blast
  next
    case False
    from progress [OF less.prems(1) False, of w]
    obtain i j s1 where s1: "thread_step w i (choice0 j) s = Some s1" by auto
    have q1: "inv_q s1" using s1 less.prems(1) by (rule inv_q_step)
    have d1: "inv_dirs w root s1" using s1 less.prems(2) by (rule inv_dirs_step)
    have "steps_left w n s1 < steps_left w n s"
      using steps_left_step [OF s1 less.prems fin] by (simp add: choice0_def)
    from less.hyps [OF this q1 d1]
    obtain sched s' where r: "list_all (\<lambda>(i, c). quiet c) sched" "run w sched s1 = Some s'"
        "all_exited s'"
      by blast
    have "list_all (\<lambda>(i, c). quiet c) ((i, choice0 j) # sched)"
      using r(1) by (simp add: quiet_choice0)
    moreover have "run w ((i, choice0 j) # sched) s = Some s'" using s1 r(2) by simp
    ultimately show ?thesis using r(3) by blast
  qed
qed

lemma wait_blocked_iff:
  "0 < length (threads s) \<Longrightarrow> length (threads s) \<le> MAXIMUM_WAIT_OBJECTS \<Longrightarrow>
   (wait_for_workers s \<noteq> WaitBlocked) = all_exited s"
  by (simp add: wait_for_workers_def Let_def)

lemma proc_reach:
  assumes "proc_run w evs (init_proc k q) = Some p"
  shows "run w (worker_events evs) (init_sys k q) = Some (p_sys p)"
    and "length (threads (p_sys p)) = k"
    and "0 < k \<Longrightarrow> k \<le> MAXIMUM_WAIT_OBJECTS \<Longrightarrow> p_returned p \<Longrightarrow> all_exited (p_sys p)"
proof -
  show r: "run w (worker_events evs) (init_sys k q) = Some (p_sys p)"
    using proc_run_sys [OF assms] by (simp add: init_proc_def)
  show l: "length (threads (p_sys p)) = k"
    using length_run [OF r] by (simp add: init_sys_def wq_init_def)
  show "all_exited (p_sys p)" if "0 < k" "k \<le> MAXIMUM_WAIT_OBJECTS" "p_returned p"
  proof -
    have "wait_for_workers (p_sys p) \<noteq> WaitBlocked"
      using assms _ that(3) by (rule proc_run_joined) (simp add: init_proc_def)
    then show ?thesis using that(1,2) l by (simp add: wait_blocked_iff)
  qed
qed

lemma proc_output:
  assumes "finite_below (Some buf_cap) (w_fs w) n root"
    and "0 < k" "k \<le> MAXIMUM_WAIT_OBJECTS"
    and "proc_run w evs (init_proc k [root]) = Some p"
    and "p_returned p" "no_alloc_failure (worker_events evs)"
  shows "mset (out_lines (p_sys p)) = mset (tree_list (Some buf_cap) w n root)"
  using assms(1) proc_reach(1) [OF assms(4)] assms(6) proc_reach(3) [OF assms(4,2,3,5)] assms(2)
  by (rule walk_correct)

lemma proc_finish:
  assumes "run w sched s = Some s'" "all_exited s'" "0 < length (threads s)"
    "length (threads s) \<le> MAXIMUM_WAIT_OBJECTS"
  shows "proc_run w (work_events sched @ [Join]) \<lparr>p_sys = s, p_returned = False\<rparr>
       = Some \<lparr>p_sys = s', p_returned = True\<rparr>"
proof -
  have l: "length (threads s') = length (threads s)" using assms(1) by (rule length_run)
  have "wait_for_workers s' \<noteq> WaitBlocked"
    using assms(2,3,4) l by (simp add: wait_blocked_iff)
  then have "proc_step w Join \<lparr>p_sys = s', p_returned = False\<rparr> = Some \<lparr>p_sys = s', p_returned = True\<rparr>"
    by (simp add: proc_step_def split: wait_result.splits)
  then show ?thesis
    by (simp add: proc_run_append proc_run_work [OF assms(1)])
qed

text \<open>
  A process started on an empty queue, as \<^verbatim>\<open>wmain\<close> starts it when the node
  for the root could not be allocated, scans no directory and prints nothing.
\<close>

lemma root_dropped:
  assumes "proc_run w evs (init_proc k []) = Some p"
  shows "out_lines (p_sys p) = [] \<and> dirs_scanned (p_sys p) = 0"
proof -
  have r: "run w (worker_events evs) (init_sys k []) = Some (p_sys p)"
    using assms by (rule proc_reach(1))
  have "queue (init_sys k []) = []" "active_workers (init_sys k []) = 0"
    by (simp_all add: init_sys_def wq_init_def)
  from quiescent_run [OF r inv_q_init this]
  show ?thesis by (simp add: init_sys_def wq_init_def)
qed


section \<open>The example run\<close>

lemma classify_file: "classify ctx0 (wide ''r'') fd_file = File True (wide ''r'' @ ch_bslash # wide ''a.txt'')"
  by (simp add: classify_eq fd_file_def ctx0_def is_dot_or_dotdot_def wide_simps ch_dot_def
      fits_def child_path_def needs_slash_def ch_bslash_def ch_slash_def buf_cap_def MAX_PATH_def
      is_dir_def FILE_ATTRIBUTE_DIRECTORY_def passes_def ext_allowed_def substring_filter_def
      wcontains_i_def)

lemma classify_link: "classify ctx0 (wide ''r'') fd_link = Skip"
  by (simp add: classify_eq fd_link_def is_dot_or_dotdot_def wide_simps ch_dot_def
      fits_def child_path_def needs_slash_def ch_bslash_def ch_slash_def buf_cap_def MAX_PATH_def
      is_dir_def is_reparse_def FILE_ATTRIBUTE_DIRECTORY_def FILE_ATTRIBUTE_REPARSE_POINT_def)

lemma find_files_loop: "find_files world_loop (wide ''r'') = [fd_file, fd_link]"
  by (simp add: find_files_eq world_loop_def fits_def pattern_of_def needs_slash_def wide_simps
      ch_bslash_def ch_slash_def buf_cap_def MAX_PATH_def)

lemma example_run: "run world_loop sched0 (init_sys 2 [wide ''r'']) = Some final0"
proof -
  let ?r = "wide ''r''"
  let ?c = "choice0 0"
  define s0 where "s0 = init_sys 2 [?r]"
  define s1 where "s1 = s0\<lparr>queue := [], active_workers := 1, dirs_scanned := 1,
     threads := [Scanning ?r [fd_file, fd_link], Popping]\<rparr>"
  define s2 where "s2 = s1\<lparr>threads := [Scanning ?r [fd_file, fd_link], Sleeping]\<rparr>"
  define s3 where "s3 = s2\<lparr>files_scanned := 1, found := 1,
     out_lines := [?r @ ch_bslash # wide ''a.txt''],
     threads := [Scanning ?r [fd_link], Sleeping]\<rparr>"
  define s4 where "s4 = s3\<lparr>threads := [Scanning ?r [], Sleeping]\<rparr>"
  define s5 where "s5 = s4\<lparr>active_workers := 0, threads := [Popping, Popping]\<rparr>"
  define s6 where "s6 = s5\<lparr>stop := True, threads := [Exited, Popping]\<rparr>"
  have w: "w_ctx world_loop = ctx0" by (simp add: world_loop_def)
  have 1: "thread_step world_loop 0 ?c s0 = Some s1"
    by (simp add: thread_step_def wq_pop_def set_thread_def s0_def s1_def init_sys_def
        wq_init_def find_files_loop numeral_2_eq_2)
  have 2: "thread_step world_loop (Suc 0) ?c s1 = Some s2"
    by (simp add: thread_step_def wq_pop_def set_thread_def s0_def s1_def s2_def init_sys_def
        wq_init_def)
  have 3: "thread_step world_loop 0 ?c s2 = Some s3"
    by (simp add: thread_step_def set_thread_def s0_def s1_def s2_def s3_def init_sys_def
        wq_init_def w classify_file)
  have 4: "thread_step world_loop 0 ?c s3 = Some s4"
    by (simp add: thread_step_def set_thread_def s0_def s1_def s2_def s3_def s4_def init_sys_def
        wq_init_def w classify_link)
  have 5: "thread_step world_loop 0 ?c s4 = Some s5"
    by (simp add: thread_step_def set_thread_def wq_done_one_def wake_all_def
        s0_def s1_def s2_def s3_def s4_def s5_def init_sys_def wq_init_def)
  have 6: "thread_step world_loop 0 ?c s5 = Some s6"
    by (simp add: thread_step_def set_thread_def wq_pop_def wake_all_def
        s0_def s1_def s2_def s3_def s4_def s5_def s6_def init_sys_def wq_init_def)
  have 7: "thread_step world_loop (Suc 0) ?c s6 = Some final0"
    by (simp add: thread_step_def set_thread_def wq_pop_def final0_def
        s0_def s1_def s2_def s3_def s4_def s5_def s6_def init_sys_def wq_init_def)
  show ?thesis
    unfolding sched0_def s0_def [symmetric] by (simp add: 1 2 3 4 5 6 7)
qed

lemma subdirs_loop: "real_subdirs lim (w_fs world_loop) dir = []"
  by (simp add: real_subdirs_def children_def world_loop_def fd_file_def fd_link_def
      is_dir_def is_reparse_def FILE_ATTRIBUTE_DIRECTORY_def FILE_ATTRIBUTE_REPARSE_POINT_def)

lemma finite_loop: "finite_below lim (w_fs world_loop) 1 dir"
  by (simp add: subdirs_loop)

lemma pattern_r: "pattern_of dir_r = dir_r @ [ch_bslash, ch_star]"
  by (simp add: pattern_of_def needs_slash_def dir_r_def wide_simps ch_bslash_def ch_slash_def)

lemma pattern_d: "pattern_of dir_d = dir_d @ [ch_bslash, ch_star]"
  by (simp add: pattern_of_def needs_slash_def dir_d_def wide_simps ch_bslash_def ch_slash_def)

lemma pattern_r_d: "dir_d \<noteq> dir_r"
  by (simp add: dir_d_def dir_r_def wide_simps)

lemma fits_r: "fits (Some buf_cap) (pattern_of dir_r)"
  by (simp add: pattern_r) (simp add: fits_def dir_r_def wide_simps buf_cap_def MAX_PATH_def)

lemma fits_d: "fits (Some buf_cap) (pattern_of dir_d)"
  by (simp add: pattern_d) (simp add: fits_def dir_d_def wide_simps buf_cap_def MAX_PATH_def)

lemma fs_r: "w_fs world_tree (pattern_of dir_r) = [fd_file, fd_sub, fd_link]"
  by (simp add: pattern_r world_tree_def)

lemma fs_d: "w_fs world_tree (pattern_of dir_d) = [fd_deep]"
  by (simp add: pattern_d pattern_r_d world_tree_def)

lemma find_files_r: "find_files world_tree dir_r = [fd_file, fd_sub, fd_link]"
  by (simp add: find_files_eq fits_r fs_r)

lemma find_files_d: "find_files world_tree dir_d = [fd_deep]"
  by (simp add: find_files_eq fits_d fs_d)

lemma classify_r_file: "classify ctx0 dir_r fd_file = File True file_a"
  using classify_file by (simp add: dir_r_def file_a_def)

lemma classify_r_link: "classify ctx0 dir_r fd_link = Skip"
  using classify_link by (simp add: dir_r_def)

lemma classify_r_sub: "classify ctx0 dir_r fd_sub = Push dir_d"
  by (simp add: classify_eq fd_sub_def is_dot_or_dotdot_def wide_simps ch_dot_def
      fits_def child_path_def needs_slash_def ch_bslash_def ch_slash_def buf_cap_def MAX_PATH_def
      is_dir_def is_reparse_def FILE_ATTRIBUTE_DIRECTORY_def FILE_ATTRIBUTE_REPARSE_POINT_def
      dir_r_def dir_d_def)

lemma classify_d_deep: "classify ctx0 dir_d fd_deep = File True file_b"
  by (simp add: classify_eq fd_deep_def ctx0_def is_dot_or_dotdot_def wide_simps ch_dot_def
      fits_def child_path_def needs_slash_def ch_bslash_def ch_slash_def buf_cap_def MAX_PATH_def
      is_dir_def FILE_ATTRIBUTE_DIRECTORY_def passes_def ext_allowed_def substring_filter_def
      wcontains_i_def dir_d_def file_b_def)

lemma ctx_tree: "w_ctx world_tree = ctx0"
  by (simp add: world_tree_def)

lemma tree_init: "init_sys 2 [dir_r] = state_tree 0"
  by (simp add: state_tree_def trace_tree_def init_sys_def wq_init_def numeral_2_eq_2)

lemma tree_step:
  shows "thread_step world_tree 0 (choice0 (Suc 0)) (state_tree 0) = Some (state_tree (Suc 0))"
    and "thread_step world_tree (Suc 0) (choice0 (Suc 0)) (state_tree (Suc 0)) = Some (state_tree 2)"
    and "thread_step world_tree 0 (choice0 (Suc 0)) (state_tree 2) = Some (state_tree 3)"
    and "thread_step world_tree 0 (choice0 (Suc 0)) (state_tree 3) = Some (state_tree 4)"
    and "thread_step world_tree (Suc 0) (choice0 (Suc 0)) (state_tree 4) = Some (state_tree 5)"
    and "thread_step world_tree 0 (choice0 (Suc 0)) (state_tree 5) = Some (state_tree 6)"
    and "thread_step world_tree (Suc 0) (choice0 (Suc 0)) (state_tree 6) = Some (state_tree 7)"
    and "thread_step world_tree 0 (choice0 (Suc 0)) (state_tree 7) = Some (state_tree 8)"
    and "thread_step world_tree 0 (choice0 (Suc 0)) (state_tree 8) = Some (state_tree 9)"
    and "thread_step world_tree (Suc 0) (choice0 (Suc 0)) (state_tree 9) = Some (state_tree 10)"
    and "thread_step world_tree (Suc 0) (choice0 (Suc 0)) (state_tree 10) = Some (state_tree 11)"
    and "thread_step world_tree 0 (choice0 (Suc 0)) (state_tree 11) = Some (state_tree 12)"
  by (simp_all add: state_tree_def trace_tree_def thread_step_def wq_pop_def wq_done_one_def
      wq_push_owned_def wake_one_def wake_all_def set_thread_def choice0_def ctx_tree
      find_files_r find_files_d classify_r_file classify_r_sub classify_r_link classify_d_deep)

lemma tree_run:
  shows "run world_tree (take 3 sched_tree) (init_sys 2 [dir_r]) = Some (state_tree 3)"
    and "run world_tree (take 9 sched_tree) (init_sys 2 [dir_r]) = Some (state_tree 9)"
    and "run world_tree (take 10 sched_tree) (init_sys 2 [dir_r]) = Some (state_tree 10)"
    and "run world_tree sched_tree (init_sys 2 [dir_r]) = Some (state_tree 12)"
  by (simp_all add: sched_tree_def tree_init tree_step)


lemma state_tree_12:
  "state_tree 12 = \<lparr>queue = [], active_workers = 0, stop = True, found = 2, dirs_scanned = 2,
     files_scanned = 2, out_lines = [file_a, file_b], threads = [Exited, Exited]\<rparr>"
  by (simp add: state_tree_def trace_tree_def)

lemma run_one: "run world_tree sched_one (init_sys 1 [dir_r]) = Some final_one"
proof -
  let ?c = "choice0 0"
  define s0 where "s0 = init_sys 1 [dir_r]"
  define s1 where "s1 = \<lparr>queue = [], active_workers = 1, stop = False, found = 0, dirs_scanned = 1,
     files_scanned = 0, out_lines = [], threads = [Scanning dir_r [fd_file, fd_sub, fd_link]]\<rparr>"
  define s2 where "s2 = \<lparr>queue = [], active_workers = 1, stop = False, found = 1, dirs_scanned = 1,
     files_scanned = 1, out_lines = [file_a], threads = [Scanning dir_r [fd_sub, fd_link]]\<rparr>"
  define s3 where "s3 = \<lparr>queue = [dir_d], active_workers = 1, stop = False, found = 1, dirs_scanned = 1,
     files_scanned = 1, out_lines = [file_a], threads = [Scanning dir_r [fd_link]]\<rparr>"
  define s4 where "s4 = \<lparr>queue = [dir_d], active_workers = 1, stop = False, found = 1, dirs_scanned = 1,
     files_scanned = 1, out_lines = [file_a], threads = [Scanning dir_r []]\<rparr>"
  define s5 where "s5 = \<lparr>queue = [dir_d], active_workers = 0, stop = False, found = 1, dirs_scanned = 1,
     files_scanned = 1, out_lines = [file_a], threads = [Popping]\<rparr>"
  define s6 where "s6 = \<lparr>queue = [], active_workers = 1, stop = False, found = 1, dirs_scanned = 2,
     files_scanned = 1, out_lines = [file_a], threads = [Scanning dir_d [fd_deep]]\<rparr>"
  define s7 where "s7 = \<lparr>queue = [], active_workers = 1, stop = False, found = 2, dirs_scanned = 2,
     files_scanned = 2, out_lines = [file_a, file_b], threads = [Scanning dir_d []]\<rparr>"
  define s8 where "s8 = \<lparr>queue = [], active_workers = 0, stop = False, found = 2, dirs_scanned = 2,
     files_scanned = 2, out_lines = [file_a, file_b], threads = [Popping]\<rparr>"
  note defs = thread_step_def wq_pop_def wq_done_one_def wq_push_owned_def wake_one_def
      wake_all_def set_thread_def choice0_def ctx_tree find_files_r find_files_d
      classify_r_file classify_r_sub classify_r_link classify_d_deep
  have 1: "thread_step world_tree 0 ?c s0 = Some s1"
    by (simp add: defs s0_def s1_def init_sys_def wq_init_def)
  have 2: "thread_step world_tree 0 ?c s1 = Some s2" by (simp add: defs s1_def s2_def)
  have 3: "thread_step world_tree 0 ?c s2 = Some s3" by (simp add: defs s2_def s3_def)
  have 4: "thread_step world_tree 0 ?c s3 = Some s4" by (simp add: defs s3_def s4_def)
  have 5: "thread_step world_tree 0 ?c s4 = Some s5" by (simp add: defs s4_def s5_def)
  have 6: "thread_step world_tree 0 ?c s5 = Some s6" by (simp add: defs s5_def s6_def)
  have 7: "thread_step world_tree 0 ?c s6 = Some s7" by (simp add: defs s6_def s7_def)
  have 8: "thread_step world_tree 0 ?c s7 = Some s8" by (simp add: defs s7_def s8_def)
  have 9: "thread_step world_tree 0 ?c s8 = Some final_one"
    by (simp add: defs s8_def final_one_def)
  have so: "sched_one = [(0, ?c), (0, ?c), (0, ?c), (0, ?c), (0, ?c), (0, ?c), (0, ?c), (0, ?c), (0, ?c)]"
    by (simp add: sched_one_def eval_nat_numeral)
  show ?thesis
    unfolding s0_def [symmetric] so by (simp add: 1 2 3 4 5 6 7 8 9)
qed

lemma run_drop: "run world_tree sched_drop (init_sys 1 [dir_r]) = Some final_drop"
proof -
  let ?c = "choice0 0"
  let ?f = "(choice0 0)\<lparr>c_node_fail := True\<rparr>"
  define s0 where "s0 = init_sys 1 [dir_r]"
  define s1 where "s1 = \<lparr>queue = [], active_workers = 1, stop = False, found = 0, dirs_scanned = 1,
     files_scanned = 0, out_lines = [], threads = [Scanning dir_r [fd_file, fd_sub, fd_link]]\<rparr>"
  define s2 where "s2 = \<lparr>queue = [], active_workers = 1, stop = False, found = 1, dirs_scanned = 1,
     files_scanned = 1, out_lines = [file_a], threads = [Scanning dir_r [fd_sub, fd_link]]\<rparr>"
  define s3 where "s3 = \<lparr>queue = [], active_workers = 1, stop = False, found = 1, dirs_scanned = 1,
     files_scanned = 1, out_lines = [file_a], threads = [Scanning dir_r [fd_link]]\<rparr>"
  define s4 where "s4 = \<lparr>queue = [], active_workers = 1, stop = False, found = 1, dirs_scanned = 1,
     files_scanned = 1, out_lines = [file_a], threads = [Scanning dir_r []]\<rparr>"
  define s5 where "s5 = \<lparr>queue = [], active_workers = 0, stop = False, found = 1, dirs_scanned = 1,
     files_scanned = 1, out_lines = [file_a], threads = [Popping]\<rparr>"
  note defs = thread_step_def wq_pop_def wq_done_one_def wq_push_owned_def wake_one_def
      wake_all_def set_thread_def choice0_def ctx_tree find_files_r find_files_d
      classify_r_file classify_r_sub classify_r_link classify_d_deep
  have 1: "thread_step world_tree 0 ?c s0 = Some s1"
    by (simp add: defs s0_def s1_def init_sys_def wq_init_def)
  have 2: "thread_step world_tree 0 ?c s1 = Some s2" by (simp add: defs s1_def s2_def)
  have 3: "thread_step world_tree 0 ?f s2 = Some s3" by (simp add: defs s2_def s3_def)
  have 4: "thread_step world_tree 0 ?c s3 = Some s4" by (simp add: defs s3_def s4_def)
  have 5: "thread_step world_tree 0 ?c s4 = Some s5" by (simp add: defs s4_def s5_def)
  have 6: "thread_step world_tree 0 ?c s5 = Some final_drop"
    by (simp add: defs s5_def final_drop_def)
  show ?thesis
    unfolding s0_def [symmetric] sched_drop_def by (simp add: 1 2 3 4 5 6)
qed

lemma subdirs_r: "real_subdirs (Some buf_cap) (w_fs world_tree) dir_r = [dir_d]"
  using pushes_find_files [of world_tree dir_r]
  by (simp add: ctx_tree find_files_r classify_r_file classify_r_sub classify_r_link)

lemma subdirs_d: "real_subdirs (Some buf_cap) (w_fs world_tree) dir_d = []"
  using pushes_find_files [of world_tree dir_d]
  by (simp add: ctx_tree find_files_d classify_d_deep)

lemma matching_r: "matching_files (Some buf_cap) world_tree dir_r = [file_a]"
  using prints_find_files [of world_tree dir_r]
  by (simp add: ctx_tree find_files_r classify_r_file classify_r_sub classify_r_link)

lemma matching_d: "matching_files (Some buf_cap) world_tree dir_d = [file_b]"
  using prints_find_files [of world_tree dir_d]
  by (simp add: ctx_tree find_files_d classify_d_deep)

lemma finite_tree: "finite_below (Some buf_cap) (w_fs world_tree) 2 dir_r"
  by (simp add: numeral_2_eq_2 subdirs_r subdirs_d)

lemma tree_list_tree: "tree_list (Some buf_cap) world_tree 2 dir_r = [file_a, file_b]"
  by (simp add: numeral_2_eq_2 subdirs_r subdirs_d matching_r matching_d)

lemma tree_steps_tree: "tree_steps world_tree 2 dir_r = 8"
  by (simp add: numeral_2_eq_2 subdirs_r subdirs_d find_files_r find_files_d)

lemma proc_run_tree:
  "proc_run world_tree (work_events sched_tree @ [Join]) (init_proc 2 [dir_r])
     = Some \<lparr>p_sys = state_tree 12, p_returned = True\<rparr>"
  unfolding init_proc_def
  by (rule proc_finish [OF tree_run(4)])
     (simp_all add: state_tree_12 all_exited_def init_sys_def wq_init_def MAXIMUM_WAIT_OBJECTS_def)

lemma proc_run_one:
  "proc_run world_tree (work_events sched_one @ [Join]) (init_proc 1 [dir_r])
     = Some \<lparr>p_sys = final_one, p_returned = True\<rparr>"
  unfolding init_proc_def
  by (rule proc_finish [OF run_one])
     (simp_all add: final_one_def all_exited_def init_sys_def wq_init_def MAXIMUM_WAIT_OBJECTS_def)

lemma file_a_b: "file_a \<noteq> file_b"
  by (simp add: file_a_def file_b_def wide_simps)

lemma join_at_once:
  "proc_run w [Join] (init_proc 65 q) = Some \<lparr>p_sys = init_sys 65 q, p_returned = True\<rparr>"
  by (simp add: proc_step_def init_proc_def wait_for_workers_def init_sys_def wq_init_def
      MAXIMUM_WAIT_OBJECTS_def)


section \<open>The claims about the traversal\<close>

lemma matching_files_loop:
  "matching_files (Some buf_cap) world_loop (wide ''r'') = [wide ''r'' @ ch_bslash # wide ''a.txt'']"
proof -
  have w: "w_ctx world_loop = ctx0" by (simp add: world_loop_def)
  have "prints ctx0 (wide ''r'') [fd_file, fd_link] = [wide ''r'' @ ch_bslash # wide ''a.txt'']"
    by (simp add: classify_file classify_link)
  then show ?thesis
    using prints_find_files [of world_loop "wide ''r''"] by (simp only: w find_files_loop)
qed

lemma tree_list_loop:
  "tree_list (Some buf_cap) world_loop 1 (wide ''r'') = [wide ''r'' @ ch_bslash # wide ''a.txt'']"
  by (simp add: matching_files_loop subdirs_loop)

text \<open>
  Claim C1, as amended. Let the tree of real directories below the root be
  finite, and let there be at least one worker and at most
  \<^verbatim>\<open>MAXIMUM_WAIT_OBJECTS\<close>, the number of threads the main thread's wait
  can hold. Then a process that has ended with no allocation failed has printed
  exactly the matching files of that tree, each as often as the tree holds it
  (once, when the tree lists no path twice): the files that are reached from
  the root through directories that are not reparse points, pass both filters,
  and whose path, like the search pattern of each directory above them, fits
  the working buffer of \<^verbatim>\<open>MAX_PATH * 8\<close> characters. Two such processes
  on the same tree have printed the same paths, whatever their numbers of
  workers and their schedules. Every run is bounded in length; from every
  state a run reaches, the process can be continued to its end by steps in
  which no allocation fails and no thread wakes up by itself; and as long as
  the process has not ended, such a step exists.
\<close>

theorem traversal_output:
  assumes "finite_below (Some buf_cap) (w_fs w) n root"
    and "0 < k" "k \<le> MAXIMUM_WAIT_OBJECTS"
    and "proc_run w evs (init_proc k [root]) = Some p"
  shows "(p_returned p \<and> no_alloc_failure (worker_events evs) \<longrightarrow>
            mset (out_lines (p_sys p)) = mset (tree_list (Some buf_cap) w n root)
            \<and> (distinct (tree_list (Some buf_cap) w n root) \<longrightarrow> distinct (out_lines (p_sys p))))
         \<and> (0 < k' \<and> k' \<le> MAXIMUM_WAIT_OBJECTS \<and>
              proc_run w evs' (init_proc k' [root]) = Some p' \<and>
              p_returned p \<and> p_returned p' \<and>
              no_alloc_failure (worker_events evs) \<and> no_alloc_failure (worker_events evs') \<longrightarrow>
              mset (out_lines (p_sys p')) = mset (out_lines (p_sys p)))
         \<and> length evs \<le>
              tree_steps w n root * (k + 1) + k + 2 * spurious_count (worker_events evs) + 1
         \<and> (\<exists>evs1 p1. list_all quiet_event evs1 \<and> proc_run w evs1 p = Some p1 \<and> p_returned p1)
         \<and> (\<not> p_returned p \<longrightarrow> (\<exists>ev. quiet_event ev \<and> proc_step w ev p \<noteq> None))"
proof -
  note r = proc_reach(1) [OF assms(4)]
  note l = proc_reach(2) [OF assms(4)]
  have q: "inv_q (p_sys p)" using r inv_q_init by (rule inv_q_run)
  have d: "inv_dirs w root (p_sys p)" using r inv_dirs_init by (rule inv_dirs_run)
  have out: "mset (out_lines (p_sys p)) = mset (tree_list (Some buf_cap) w n root)"
    if "p_returned p" "no_alloc_failure (worker_events evs)"
    using assms that by (rule proc_output)
  have 1: "mset (out_lines (p_sys p)) = mset (tree_list (Some buf_cap) w n root)
      \<and> (distinct (tree_list (Some buf_cap) w n root) \<longrightarrow> distinct (out_lines (p_sys p)))"
    if "p_returned p" "no_alloc_failure (worker_events evs)"
    using out [OF that] mset_eq_imp_distinct_iff by blast
  have 2: "mset (out_lines (p_sys p')) = mset (out_lines (p_sys p))"
    if "0 < k'" "k' \<le> MAXIMUM_WAIT_OBJECTS" "proc_run w evs' (init_proc k' [root]) = Some p'"
      "p_returned p" "p_returned p'" "no_alloc_failure (worker_events evs)"
      "no_alloc_failure (worker_events evs')"
    using proc_output [OF assms(1) that(1,2,3,5,7)] out [OF that(4,6)] by simp
  have 3: "length evs \<le>
      tree_steps w n root * (k + 1) + k + 2 * spurious_count (worker_events evs) + 1"
    using run_bound [OF assms(1) r inv_q_init inv_dirs_init] proc_run_length [OF assms(4)]
    by (simp add: steps_left_init)
  have pe: "p = \<lparr>p_sys = p_sys p, p_returned = False\<rparr>" if "\<not> p_returned p"
    using that by simp
  have 4: "\<exists>evs1 p1. list_all quiet_event evs1 \<and> proc_run w evs1 p = Some p1 \<and> p_returned p1"
  proof (cases "p_returned p")
    case True
    then have "list_all quiet_event [] \<and> proc_run w [] p = Some p \<and> p_returned p" by simp
    then show ?thesis by blast
  next
    case False
    obtain sched s' where f: "list_all (\<lambda>(i, c). quiet c) sched" "run w sched (p_sys p) = Some s'"
        "all_exited s'"
      using can_finish_quiet [OF assms(1) q d] by blast
    have "proc_run w (work_events sched @ [Join]) \<lparr>p_sys = p_sys p, p_returned = False\<rparr>
        = Some \<lparr>p_sys = s', p_returned = True\<rparr>"
      using f(2,3) by (rule proc_finish) (use assms(2,3) l in simp_all)
    moreover have "list_all quiet_event (work_events sched @ [Join])"
      using f(1) by (simp add: quiet_work_events)
    ultimately have "list_all quiet_event (work_events sched @ [Join]) \<and>
        proc_run w (work_events sched @ [Join]) p = Some \<lparr>p_sys = s', p_returned = True\<rparr>
        \<and> p_returned \<lparr>p_sys = s', p_returned = True\<rparr>"
      using pe [OF False] by simp
    then show ?thesis by blast
  qed
  have 5: "\<exists>ev. quiet_event ev \<and> proc_step w ev p \<noteq> None" if nr: "\<not> p_returned p"
  proof (cases "all_exited (p_sys p)")
    case True
    then have "wait_for_workers (p_sys p) \<noteq> WaitBlocked"
      using assms(2,3) l by (simp add: wait_blocked_iff)
    then have "proc_step w Join p \<noteq> None"
      using nr by (simp add: proc_step_def split: wait_result.splits)
    then have "quiet_event Join \<and> proc_step w Join p \<noteq> None" by simp
    then show ?thesis by blast
  next
    case False
    from progress [OF q False, of w]
    obtain i j where "thread_step w i (choice0 j) (p_sys p) \<noteq> None" by blast
    then have "proc_step w (Work i (choice0 j)) p \<noteq> None"
      using nr by (auto simp: proc_step_def)
    then have "quiet_event (Work i (choice0 j)) \<and> proc_step w (Work i (choice0 j)) p \<noteq> None"
      by (simp add: quiet_choice0)
    then show ?thesis by blast
  qed
  from 1 2 3 4 5 show ?thesis by blast
qed

lemma proc_run_nil: "proc_run world_tree [] (init_proc 2 [dir_r]) = Some (init_proc 2 [dir_r])"
  by simp

theorem traversal_output_witness:
  "finite_below (Some buf_cap) (w_fs world_tree) 2 dir_r
   \<and> proc_run world_tree (work_events sched_tree @ [Join]) (init_proc 2 [dir_r])
       = Some \<lparr>p_sys = state_tree 12, p_returned = True\<rparr>
   \<and> proc_run world_tree (work_events sched_one @ [Join]) (init_proc 1 [dir_r])
       = Some \<lparr>p_sys = final_one, p_returned = True\<rparr>
   \<and> no_alloc_failure sched_tree \<and> no_alloc_failure sched_one
   \<and> tree_list (Some buf_cap) world_tree 2 dir_r = [file_a, file_b]
   \<and> mset (out_lines (state_tree 12)) = {#file_a, file_b#}
   \<and> distinct (out_lines (state_tree 12))
   \<and> mset (out_lines final_one) = mset (out_lines (state_tree 12))
   \<and> length (work_events sched_tree @ [Join]) \<le> 8 * (2 + 1) + 2 + 2 * 0 + 1
   \<and> (\<exists>evs1 p1. list_all quiet_event evs1 \<and>
         proc_run world_tree evs1 (init_proc 2 [dir_r]) = Some p1 \<and> p_returned p1)
   \<and> (\<exists>ev. quiet_event ev \<and> proc_step world_tree ev (init_proc 2 [dir_r]) \<noteq> None)"
proof -
  let ?p = "\<lparr>p_sys = state_tree 12, p_returned = True\<rparr>"
  let ?p1 = "\<lparr>p_sys = final_one, p_returned = True\<rparr>"
  have k: "(0::nat) < 2" "(2::nat) \<le> MAXIMUM_WAIT_OBJECTS" "(0::nat) < 1" "(1::nat) \<le> MAXIMUM_WAIT_OBJECTS"
    by (simp_all add: MAXIMUM_WAIT_OBJECTS_def)
  have na: "no_alloc_failure sched_tree" "no_alloc_failure sched_one"
    by (simp_all add: no_alloc_failure_def sched_tree_def sched_one_def choice0_def list_all_iff)
  have we: "worker_events (work_events sched_tree @ [Join]) = sched_tree"
    "worker_events (work_events sched_one @ [Join]) = sched_one"
    by (simp_all add: worker_events_work)
  have sc: "spurious_count sched_tree = 0"
    by (simp add: spurious_count_def sched_tree_def choice0_def)
  have d: "distinct (tree_list (Some buf_cap) world_tree 2 dir_r)"
    by (simp add: tree_list_tree file_a_b)
  note th = traversal_output [OF finite_tree k(1,2) proc_run_tree, where k' = 1
      and evs' = "work_events sched_one @ [Join]" and p' = ?p1]
  note th0 = traversal_output [OF finite_tree k(1,2) proc_run_nil]
  have r: "p_returned ?p" "p_returned ?p1" by simp_all
  have o: "p_sys ?p = state_tree 12" "p_sys ?p1 = final_one" by simp_all
  have nr: "\<not> p_returned (init_proc 2 [dir_r])" by (simp add: init_proc_def)
  from th [THEN conjunct1] r(1) na(1)
  have "mset (out_lines (p_sys ?p)) = mset (tree_list (Some buf_cap) world_tree 2 dir_r)
      \<and> (distinct (tree_list (Some buf_cap) world_tree 2 dir_r) \<longrightarrow> distinct (out_lines (p_sys ?p)))"
    by (simp only: we) blast
  with d have 1: "mset (out_lines (state_tree 12)) = mset (tree_list (Some buf_cap) world_tree 2 dir_r)"
    and 2: "distinct (out_lines (state_tree 12))"
    by (simp_all only: o)
  from 1 have 3: "mset (out_lines (state_tree 12)) = {#file_a, file_b#}"
    by (simp only: tree_list_tree) simp
  from th [THEN conjunct2, THEN conjunct1] k(3,4) proc_run_one r na
  have "mset (out_lines (p_sys ?p1)) = mset (out_lines (p_sys ?p))"
    by (simp only: we)
  then have 4: "mset (out_lines final_one) = mset (out_lines (state_tree 12))"
    by (simp only: o)
  from th [THEN conjunct2, THEN conjunct2, THEN conjunct1]
  have 5: "length (work_events sched_tree @ [Join]) \<le> 8 * (2 + 1) + 2 + 2 * 0 + 1"
    by (simp only: tree_steps_tree we sc)
  note 6 = th0 [THEN conjunct2, THEN conjunct2, THEN conjunct2, THEN conjunct1]
  from th0 [THEN conjunct2, THEN conjunct2, THEN conjunct2, THEN conjunct2] nr
  have 7: "\<exists>ev. quiet_event ev \<and> proc_step world_tree ev (init_proc 2 [dir_r]) \<noteq> None"
    by blast
  from finite_tree proc_run_tree proc_run_one na tree_list_tree 3 2 4 5 6 7 show ?thesis by blast
qed

lemma long_root_length: "length long_root = 2079"
  by (simp add: long_root_def length_concat sum_list_replicate)

lemma long_root_last: "needs_slash long_root"
  by (simp add: needs_slash_def long_root_def ch_bslash_def ch_slash_def)

lemma long_root_pattern: "\<not> fits (Some buf_cap) (pattern_of long_root)"
  by (simp add: fits_def pattern_of_def long_root_last long_root_length buf_cap_def MAX_PATH_def)

lemma tree_list_long_unlimited:
  "tree_list None world_loop 1 long_root = [long_root @ ch_bslash # wide ''a.txt'']"
  by (simp add: matching_files_def children_def subdirs_loop fits_def world_loop_def
      fd_file_def fd_link_def is_dot_or_dotdot_def wide_simps ch_dot_def is_dir_def is_reparse_def
      FILE_ATTRIBUTE_DIRECTORY_def FILE_ATTRIBUTE_REPARSE_POINT_def passes_def ctx0_def
      ext_allowed_def substring_filter_def wcontains_i_def child_path_def long_root_last)

lemma find_files_long: "find_files world_loop long_root = []"
  by (simp add: find_files_eq long_root_pattern)

lemma run_long:
  "run world_loop [(0, choice0 0), (0, choice0 0), (0, choice0 0)] (init_sys 1 [long_root])
     = Some final_long"
proof -
  let ?c = "choice0 0"
  define s0 where "s0 = init_sys 1 [long_root]"
  define s1 where "s1 = \<lparr>queue = [], active_workers = 1, stop = False, found = 0, dirs_scanned = 1,
     files_scanned = 0, out_lines = [], threads = [Scanning long_root []]\<rparr>"
  define s2 where "s2 = \<lparr>queue = [], active_workers = 0, stop = False, found = 0, dirs_scanned = 1,
     files_scanned = 0, out_lines = [], threads = [Popping]\<rparr>"
  note defs = thread_step_def wq_pop_def wq_done_one_def wake_all_def set_thread_def choice0_def
      find_files_long
  have 1: "thread_step world_loop 0 ?c s0 = Some s1"
    by (simp add: defs s0_def s1_def init_sys_def wq_init_def)
  have 2: "thread_step world_loop 0 ?c s1 = Some s2" by (simp add: defs s1_def s2_def)
  have 3: "thread_step world_loop 0 ?c s2 = Some final_long"
    by (simp add: defs s2_def final_long_def)
  show ?thesis
    unfolding s0_def [symmetric] by (simp add: 1 2 3)
qed

text \<open>
  Claim C1 as stated fails. First, a root of 2079 characters holds the file
  a.txt, which passes both filters; its search pattern does not fit the
  buffer, so the directory is abandoned: a process with one worker and no
  allocation failure ends with nothing printed. Second, with 65 workers the
  wait of the main thread fails at once, and the process can end before any
  worker has moved, with nothing printed although the root holds a matching
  file. Third, when the allocation of the queue's node for the directory d
  fails, the process ends without the file b.txt that d holds.
\<close>

theorem traversal_output_counterexample:
  "finite_below None (w_fs world_loop) 1 long_root
   \<and> tree_list None world_loop 1 long_root = [long_root @ ch_bslash # wide ''a.txt'']
   \<and> proc_run world_loop (work_events [(0, choice0 0), (0, choice0 0), (0, choice0 0)] @ [Join])
         (init_proc 1 [long_root])
       = Some \<lparr>p_sys = final_long, p_returned = True\<rparr>
   \<and> out_lines final_long = []
   \<and> tree_list (Some buf_cap) world_loop 1 (wide ''r'') = [wide ''r'' @ ch_bslash # wide ''a.txt'']
   \<and> proc_run world_loop [Join] (init_proc 65 [wide ''r''])
       = Some \<lparr>p_sys = init_sys 65 [wide ''r''], p_returned = True\<rparr>
   \<and> out_lines (init_sys 65 [wide ''r'']) = []
   \<and> tree_list (Some buf_cap) world_tree 2 dir_r = [file_a, file_b]
   \<and> proc_run world_tree (work_events sched_drop @ [Join]) (init_proc 1 [dir_r])
       = Some \<lparr>p_sys = final_drop, p_returned = True\<rparr>
   \<and> out_lines final_drop = [file_a]"
proof -
  have 1: "proc_run world_loop (work_events [(0, choice0 0), (0, choice0 0), (0, choice0 0)] @ [Join])
         (init_proc 1 [long_root])
       = Some \<lparr>p_sys = final_long, p_returned = True\<rparr>"
    unfolding init_proc_def
    by (rule proc_finish [OF run_long])
       (simp_all add: final_long_def all_exited_def init_sys_def wq_init_def MAXIMUM_WAIT_OBJECTS_def)
  have 2: "proc_run world_tree (work_events sched_drop @ [Join]) (init_proc 1 [dir_r])
       = Some \<lparr>p_sys = final_drop, p_returned = True\<rparr>"
    unfolding init_proc_def
    by (rule proc_finish [OF run_drop])
       (simp_all add: final_drop_def all_exited_def init_sys_def wq_init_def MAXIMUM_WAIT_OBJECTS_def)
  have 3: "out_lines final_long = []" "out_lines (init_sys 65 [wide ''r'']) = []"
    "out_lines final_drop = [file_a]"
    by (simp_all add: final_long_def final_drop_def init_sys_def wq_init_def)
  from finite_loop [of None long_root] tree_list_long_unlimited 1 3 tree_list_loop
    join_at_once [of world_loop "[wide ''r'']"] tree_list_tree 2
  show ?thesis by blast
qed

text \<open>
  Claim C4. An entry that is a directory and a reparse point is skipped: the
  step that handles it changes nothing but the position in the enumeration.
  Every directory in the queue or being scanned is reached from the root
  through directories that are not reparse points. When the tree of those
  directories is finite, every run is bounded in length (by a bound on the
  work of the tree, plus two steps for each spurious wake-up), and some run
  ends with every worker returned, whatever the reparse points lead to.
\<close>

theorem reparse_skipped:
  "(is_dir fd \<and> is_reparse fd \<longrightarrow> classify c dir fd = Skip)
   \<and> (i < length (threads s) \<and> threads s ! i = Scanning dir (fd # fds) \<and>
        is_dir fd \<and> is_reparse fd \<longrightarrow>
        thread_step w i ch s = Some (s\<lparr>threads := (threads s)[i := Scanning dir fds]\<rparr>))
   \<and> (run w sched (init_sys k [root]) = Some s1 \<longrightarrow>
        (\<forall>d\<in>set (queue s1). real_dir (Some buf_cap) (w_fs w) root d) \<and>
        (\<forall>t\<in>set (threads s1). \<forall>d ds. t = Scanning d ds \<longrightarrow>
            real_dir (Some buf_cap) (w_fs w) root d))
   \<and> (sub \<in> set (real_subdirs lim (w_fs w) dir) \<longrightarrow>
        (\<exists>e\<in>set (w_fs w (pattern_of dir)).
            sub = child_path dir (cFileName e) \<and> is_dir e \<and> \<not> is_reparse e))
   \<and> (finite_below (Some buf_cap) (w_fs w) n root \<longrightarrow>
        (run w sched (init_sys k [root]) = Some s1 \<longrightarrow>
           length sched \<le> tree_steps w n root * (k + 1) + k + 2 * spurious_count sched) \<and>
        (\<exists>sched' s'. run w sched' (init_sys k [root]) = Some s' \<and> all_exited s'))"
proof -
  have 1: "is_dir fd \<and> is_reparse fd \<longrightarrow> classify c dir fd = Skip"
    by (simp add: classify_eq)
  have 2: "i < length (threads s) \<and> threads s ! i = Scanning dir (fd # fds) \<and>
        is_dir fd \<and> is_reparse fd \<longrightarrow>
        thread_step w i ch s = Some (s\<lparr>threads := (threads s)[i := Scanning dir fds]\<rparr>)"
    by (simp add: thread_step_def set_thread_def classify_eq)
  have 3: "(\<forall>d\<in>set (queue s1). real_dir (Some buf_cap) (w_fs w) root d) \<and>
        (\<forall>t\<in>set (threads s1). \<forall>d ds. t = Scanning d ds \<longrightarrow>
            real_dir (Some buf_cap) (w_fs w) root d)"
    if r: "run w sched (init_sys k [root]) = Some s1"
  proof -
    have "inv_dirs w root s1" using r inv_dirs_init by (rule inv_dirs_run)
    then show ?thesis unfolding inv_dirs_def by fastforce
  qed
  have 4: "sub \<in> set (real_subdirs lim (w_fs w) dir) \<longrightarrow>
        (\<exists>e\<in>set (w_fs w (pattern_of dir)).
            sub = child_path dir (cFileName e) \<and> is_dir e \<and> \<not> is_reparse e)"
    by (auto simp: real_subdirs_def children_def split: if_splits)
  have 5: "(run w sched (init_sys k [root]) = Some s1 \<longrightarrow>
           length sched \<le> tree_steps w n root * (k + 1) + k + 2 * spurious_count sched) \<and>
        (\<exists>sched' s'. run w sched' (init_sys k [root]) = Some s' \<and> all_exited s')"
    if f: "finite_below (Some buf_cap) (w_fs w) n root"
  proof -
    have "length sched \<le> tree_steps w n root * (k + 1) + k + 2 * spurious_count sched"
      if r: "run w sched (init_sys k [root]) = Some s1"
      using run_bound [OF f r inv_q_init inv_dirs_init] by (simp add: steps_left_init)
    moreover have "\<exists>sched' s'. run w sched' (init_sys k [root]) = Some s' \<and> all_exited s'"
      using can_finish [OF f inv_q_init inv_dirs_init, of k] by blast
    ultimately show ?thesis by blast
  qed
  from 1 2 3 4 5 show ?thesis by blast
qed

theorem reparse_skipped_witness:
  "is_dir fd_link \<and> is_reparse fd_link
   \<and> w_fs world_loop (pattern_of (child_path (wide ''r'') (cFileName fd_link)))
       = w_fs world_loop (pattern_of (wide ''r''))
   \<and> classify ctx0 (wide ''r'') fd_link = Skip
   \<and> tree_steps world_loop 1 (wide ''r'') = 4
   \<and> spurious_count sched0 = 0
   \<and> length sched0 \<le> 4 * (2 + 1) + 2
   \<and> (\<exists>sched' s'. run world_loop sched' (init_sys 2 [wide ''r'']) = Some s' \<and> all_exited s')"
proof -
  have l: "is_dir fd_link" "is_reparse fd_link"
    by (simp_all add: fd_link_def is_dir_def is_reparse_def FILE_ATTRIBUTE_DIRECTORY_def
        FILE_ATTRIBUTE_REPARSE_POINT_def)
  have t: "tree_steps world_loop 1 (wide ''r'') = 4"
    by (simp add: find_files_loop subdirs_loop)
  have f: "finite_below (Some buf_cap) (w_fs world_loop) 1 (wide ''r'')" by (rule finite_loop)
  have c: "w_fs world_loop (pattern_of (child_path (wide ''r'') (cFileName fd_link)))
       = w_fs world_loop (pattern_of (wide ''r''))"
    by (simp add: world_loop_def)
  have sc: "spurious_count sched0 = 0"
    by (simp add: spurious_count_def sched0_def choice0_def)
  note th = reparse_skipped [of fd_link ctx0 "wide ''r''" 0 final0 "[]" world_loop "choice0 0"
      sched0 2 "wide ''r''" final0 "[]" None 1]
  from th l have 1: "classify ctx0 (wide ''r'') fd_link = Skip" by blast
  from th f have 2: "\<exists>sched' s'. run world_loop sched' (init_sys 2 [wide ''r'']) = Some s' \<and>
      all_exited s'" by blast
  from th f example_run
  have "length sched0 \<le> tree_steps world_loop 1 (wide ''r'') * (2 + 1) + 2 +
      2 * spurious_count sched0" by blast
  then have 3: "length sched0 \<le> 4 * (2 + 1) + 2" by (simp only: t sc)
  from l c 1 t sc 3 2 show ?thesis by blast
qed

theorem wq_pop_four_cases_witness:
  "wq_pop (final0\<lparr>stop := True\<rparr>) = (PopStop, final0\<lparr>stop := True\<rparr>)
   \<and> wq_pop (init_sys 2 [wide ''r'']) =
       (PopDir (wide ''r''), (init_sys 2 [wide ''r''])\<lparr>queue := [], active_workers := 1\<rparr>)
   \<and> fst (wq_pop (init_sys 2 [])) = PopStop
   \<and> stop (snd (wq_pop (init_sys 2 [])))
   \<and> wq_pop ((init_sys 2 [])\<lparr>active_workers := 1\<rparr>) =
       (PopWait, (init_sys 2 [])\<lparr>active_workers := 1\<rparr>)"
  using wq_pop_four_cases [of "final0\<lparr>stop := True\<rparr>" "[]" "[]" 0 world_loop "choice0 0"]
    wq_pop_four_cases [of "init_sys 2 [wide ''r'']" "wide ''r''" "[]" 0 world_loop "choice0 0"]
    wq_pop_four_cases [of "init_sys 2 []" "[]" "[]" 0 world_loop "choice0 0"]
    wq_pop_four_cases [of "(init_sys 2 [])\<lparr>active_workers := 1\<rparr>" "[]" "[]" 0 world_loop
      "choice0 0"]
  by (simp add: init_sys_def wq_init_def final0_def)


end
